theory Spec2Isabelle
  imports Main "HOL-Library.Word"
begin

section \<open>The latch state and the four method bodies of \<^verbatim>\<open>rwlatch.h\<close>\<close>

text \<open>
  \<^verbatim>\<open>ReaderWriterLatch\<close> keeps two data members next to its mutex and its two condition
  variables: \<^verbatim>\<open>uint32_t reader_count_{0}\<close> and \<^verbatim>\<open>bool writer_entered_{false}\<close>.
  (Isabelle does not accept a name that ends in an underscore, so the trailing underscore
  of the member names is dropped.)  \<^verbatim>\<open>MAX_READERS\<close> is \<^verbatim>\<open>UINT_MAX\<close> stored in a
  \<^verbatim>\<open>uint32_t\<close>, taken here for a 32-bit \<^verbatim>\<open>unsigned int\<close>.
\<close>

type_synonym uint32_t = "32 word"

record LockState =
  reader_count :: uint32_t
  writer_entered :: bool

definition MAX_READERS :: uint32_t where
  "MAX_READERS = 4294967295"

definition initial :: LockState where
  "initial = \<lparr>reader_count = 0, writer_entered = False\<rparr>"

text \<open>The two condition variables \<^verbatim>\<open>writer_\<close> and \<^verbatim>\<open>reader_\<close>, and the two calls made on them.\<close>

datatype cond_t = writer_cv | reader_cv

datatype notification = notify_one cond_t | notify_all cond_t

text \<open>
  Every access to the two members happens with \<^verbatim>\<open>mutex_\<close> held, and
  \<^verbatim>\<open>condition_variable::wait\<close> gives the mutex up and parks the caller in one atomic
  action.  A method therefore runs in pieces: from a point where it holds the mutex up to
  the next \<^verbatim>\<open>wait\<close> or up to its return.  The points are the entries of the loops and of
  the two unlock bodies (and of the destructor body).
\<close>

datatype point = L_WLock1 | L_WLock2 | L_RLock | L_WUnlock | L_RUnlock | L_Dtor

text \<open>
  A piece ends either in \<^verbatim>\<open>cv.wait(latch)\<close>, to be resumed at the head of the enclosing
  \<^verbatim>\<open>while\<close>, or in the return of the method, after at most one notification.  A
  \<^verbatim>\<open>while\<close> loop of the source is thus the piece that tests its condition and, when the
  test says so, ends in \<open>Wait\<close> with its own point: when the thread is woken, it takes
  the mutex again and the same piece runs again.  How often that happens is up to the
  other threads.
\<close>

datatype result = Wait cond_t point | Return "notification option"

text \<open>
  \<^verbatim>\<open>WLock\<close>, second loop (lines 56 to 58): \<^verbatim>\<open>while (reader_count_ > 0) writer_.wait(latch);\<close>
\<close>

definition WLock_drain :: "LockState \<Rightarrow> LockState \<times> result" where
  "WLock_drain s =
     (if reader_count s > 0 then (s, Wait writer_cv L_WLock2) else (s, Return None))"

text \<open>
  \<^verbatim>\<open>WLock\<close> from its first loop (lines 50 to 58):
  \<^verbatim>\<open>while (writer_entered_) reader_.wait(latch); writer_entered_ = true;\<close> and on into
  the second loop.
\<close>

definition WLock :: "LockState \<Rightarrow> LockState \<times> result" where
  "WLock s =
     (if writer_entered s then (s, Wait reader_cv L_WLock1)
      else WLock_drain (s\<lparr>writer_entered := True\<rparr>))"

text \<open>\<^verbatim>\<open>WUnlock\<close> (lines 64 to 69): \<^verbatim>\<open>writer_entered_ = false; reader_.notify_all();\<close>\<close>

definition WUnlock :: "LockState \<Rightarrow> LockState \<times> result" where
  "WUnlock s = (s\<lparr>writer_entered := False\<rparr>, Return (Some (notify_all reader_cv)))"

text \<open>
  \<^verbatim>\<open>RLock\<close> (lines 74 to 81):
  \<^verbatim>\<open>while (writer_entered_ || reader_count_ == MAX_READERS) reader_.wait(latch); reader_count_++;\<close>
\<close>

definition RLock :: "LockState \<Rightarrow> LockState \<times> result" where
  "RLock s =
     (if writer_entered s \<or> reader_count s = MAX_READERS then (s, Wait reader_cv L_RLock)
      else (s\<lparr>reader_count := reader_count s + 1\<rparr>, Return None))"

text \<open>
  \<^verbatim>\<open>RUnlock\<close> (lines 86 to 100): the decrement is that of a \<^verbatim>\<open>uint32_t\<close> and wraps; the
  two tests read the decremented counter.
\<close>

definition RUnlock :: "LockState \<Rightarrow> LockState \<times> result" where
  "RUnlock s =
     (let s' = s\<lparr>reader_count := reader_count s - 1\<rparr> in
      if writer_entered s' then
        (if reader_count s' = 0 then (s', Return (Some (notify_one writer_cv)))
         else (s', Return None))
      else
        (if reader_count s' = MAX_READERS - 1 then (s', Return (Some (notify_one reader_cv)))
         else (s', Return None)))"

text \<open>The piece of code that starts at each point; the destructor body is empty.\<close>

fun body :: "point \<Rightarrow> LockState \<Rightarrow> LockState \<times> result" where
  "body L_WLock1 s = WLock s"
| "body L_WLock2 s = WLock_drain s"
| "body L_RLock s = RLock s"
| "body L_WUnlock s = WUnlock s"
| "body L_RUnlock s = RUnlock s"
| "body L_Dtor s = (s, Return None)"

section \<open>Threads, the mutex and the condition variables\<close>

text \<open>
  A thread is outside the latch (\<open>Idle\<close>), blocked on the acquisition of \<^verbatim>\<open>mutex_\<close>
  before a point (\<open>Acquiring\<close>: the \<^verbatim>\<open>unique_lock\<close> or \<^verbatim>\<open>lock_guard\<close> at the head of a
  method, or the re-lock inside \<^verbatim>\<open>wait\<close> after a wake-up), inside the mutex at a point
  (\<open>Running\<close>), parked in \<^verbatim>\<open>wait\<close> on a condition variable (\<open>Waiting\<close>), or between the
  return of \<^verbatim>\<open>RLock\<close> or \<^verbatim>\<open>WLock\<close> and its call of the matching unlock
  (\<open>Reading\<close>, \<open>Writing\<close>).  A thread that has left the body of the destructor, where the
  \<^verbatim>\<open>lock_guard\<close> has given the mutex back, is about to destroy the members
  (\<open>Finalizing\<close>).
\<close>

datatype pc =
  Idle | Acquiring point | Running point | Waiting cond_t point | Reading | Writing | Finalizing

datatype operation = M_WLock | M_WUnlock | M_RLock | M_RUnlock | M_Dtor

record sys =
  st :: LockState
  mutex :: "nat option"
  threads :: "pc list"
  destroyed :: bool

definition init :: "nat \<Rightarrow> sys" where
  "init n = \<lparr>st = initial, mutex = None, threads = replicate n Idle, destroyed = False\<rparr>"

text \<open>
  The caller's contract: a lock method or the destructor is called from outside, an
  unlock only by a holder of the matching mode.  A thread of the model is one logical
  caller: it holds at most one mode at a time, as the latch is not re-entrant.
\<close>

fun entry :: "pc \<Rightarrow> operation \<Rightarrow> point option" where
  "entry Idle M_WLock = Some L_WLock1"
| "entry Idle M_RLock = Some L_RLock"
| "entry Idle M_Dtor = Some L_Dtor"
| "entry Reading M_RUnlock = Some L_RUnlock"
| "entry Writing M_WUnlock = Some L_WUnlock"
| "entry _ _ = None"

text \<open>Where a thread is after the method that held the point has returned.\<close>

fun after :: "point \<Rightarrow> pc" where
  "after L_WLock1 = Writing"
| "after L_WLock2 = Writing"
| "after L_RLock = Reading"
| "after L_WUnlock = Idle"
| "after L_RUnlock = Idle"
| "after L_Dtor = Finalizing"

fun parked_on :: "cond_t \<Rightarrow> pc \<Rightarrow> bool" where
  "parked_on cv (Waiting c p) = (c = cv)"
| "parked_on cv _ = False"

fun wake :: "cond_t \<Rightarrow> pc \<Rightarrow> pc" where
  "wake cv (Waiting c p) = (if c = cv then Acquiring p else Waiting c p)"
| "wake cv x = x"

text \<open>
  The effect of a notification on the threads: \<^verbatim>\<open>notify_all\<close> unparks every thread
  parked on the condition variable; \<^verbatim>\<open>notify_one\<close> unparks one of them, the choice
  \<open>w\<close> being the scheduler's, and none when none is parked.  A choice that does not fit
  is refused.
\<close>

fun deliver :: "notification option \<Rightarrow> nat option \<Rightarrow> pc list \<Rightarrow> pc list option" where
  "deliver None w ts = (if w = None then Some ts else None)"
| "deliver (Some (notify_all cv)) w ts = (if w = None then Some (map (wake cv) ts) else None)"
| "deliver (Some (notify_one cv)) None ts =
     (if list_ex (parked_on cv) ts then None else Some ts)"
| "deliver (Some (notify_one cv)) (Some j) ts =
     (if j < length ts \<and> parked_on cv (ts ! j) then Some (ts[j := wake cv (ts ! j)]) else None)"

text \<open>
  The steps of the system.  \<open>Call t m\<close>: thread \<open>t\<close> calls method \<open>m\<close> and reaches the
  acquisition of the mutex.  \<open>Lock t\<close>: it obtains the mutex, which must be free.
  \<open>Run t w\<close>: holding the mutex, it runs the piece of code at its point, gives the mutex
  up and either parks or returns.  \<open>Spurious t\<close>: a parked thread wakes up without a notification, as
  \<^verbatim>\<open>std::condition_variable\<close> allows.  \<open>Finalize t\<close>: the thread that has left the body
  of the destructor destroys the members; after that nothing is defined.
\<close>

datatype action =
  Call nat operation | Lock nat | Run nat "nat option" | Spurious nat | Finalize nat

fun step :: "sys \<Rightarrow> action \<Rightarrow> sys option" where
  "step s (Call t m) =
     (if destroyed s \<or> \<not> t < length (threads s) then None
      else case entry (threads s ! t) m of
             None \<Rightarrow> None
           | Some p \<Rightarrow> Some (s\<lparr>threads := (threads s)[t := Acquiring p]\<rparr>))"
| "step s (Lock t) =
     (if destroyed s \<or> \<not> t < length (threads s) \<or> mutex s \<noteq> None then None
      else case threads s ! t of
             Acquiring p \<Rightarrow> Some (s\<lparr>mutex := Some t, threads := (threads s)[t := Running p]\<rparr>)
           | _ \<Rightarrow> None)"
| "step s (Run t w) =
     (if destroyed s \<or> \<not> t < length (threads s) \<or> mutex s \<noteq> Some t then None
      else case threads s ! t of
             Running p \<Rightarrow>
               (case body p (st s) of
                  (s', Wait cv q) \<Rightarrow>
                    (if w = None
                     then Some (s\<lparr>st := s', mutex := None,
                                  threads := (threads s)[t := Waiting cv q]\<rparr>)
                     else None)
                | (s', Return n) \<Rightarrow>
                    (case deliver n w ((threads s)[t := after p]) of
                       None \<Rightarrow> None
                     | Some ts \<Rightarrow> Some (s\<lparr>st := s', mutex := None, threads := ts\<rparr>)))
           | _ \<Rightarrow> None)"
| "step s (Spurious t) =
     (if destroyed s \<or> \<not> t < length (threads s) then None
      else case threads s ! t of
             Waiting cv p \<Rightarrow> Some (s\<lparr>threads := (threads s)[t := Acquiring p]\<rparr>)
           | _ \<Rightarrow> None)"
| "step s (Finalize t) =
     (if destroyed s \<or> \<not> t < length (threads s) then None
      else case threads s ! t of
             Finalizing \<Rightarrow> Some (s\<lparr>threads := (threads s)[t := Idle], destroyed := True\<rparr>)
           | _ \<Rightarrow> None)"

text \<open>A run is a sequence of steps, each of them enabled.\<close>

fun run :: "sys \<Rightarrow> action list \<Rightarrow> sys option" where
  "run s [] = Some s"
| "run s (a # as) = (case step s a of None \<Rightarrow> None | Some s' \<Rightarrow> run s' as)"

section \<open>Who holds what\<close>

text \<open>
  The point a thread is at, if it is inside a method.  A reader is a thread between the
  return of \<^verbatim>\<open>RLock\<close> and the decrement in \<^verbatim>\<open>RUnlock\<close>; a thread holds the write
  latch between the return of \<^verbatim>\<open>WLock\<close> and the assignment in \<^verbatim>\<open>WUnlock\<close>; it is
  draining from the moment it has set \<^verbatim>\<open>writer_entered_\<close> until \<^verbatim>\<open>WLock\<close> returns.
\<close>

fun at_point :: "pc \<Rightarrow> point option" where
  "at_point (Acquiring p) = Some p"
| "at_point (Running p) = Some p"
| "at_point (Waiting c p) = Some p"
| "at_point _ = None"

definition is_reader :: "pc \<Rightarrow> bool" where
  "is_reader x = (x = Reading \<or> at_point x = Some L_RUnlock)"

definition holds_write :: "pc \<Rightarrow> bool" where
  "holds_write x = (x = Writing \<or> at_point x = Some L_WUnlock)"

definition draining :: "pc \<Rightarrow> bool" where
  "draining x = (at_point x = Some L_WLock2)"

definition active_writer :: "pc \<Rightarrow> bool" where
  "active_writer x = (draining x \<or> holds_write x)"

definition count_pc :: "(pc \<Rightarrow> bool) \<Rightarrow> pc list \<Rightarrow> nat" where
  "count_pc P ts = length (filter P ts)"

text \<open>
  The invariant behind mutual exclusion: \<^verbatim>\<open>reader_count_\<close> is the number of readers,
  \<^verbatim>\<open>writer_entered_\<close> is set exactly when there is an active writer, which is then the
  only one, and a holder of the write latch goes with a reader count of 0.
\<close>

definition latch_inv :: "sys \<Rightarrow> bool" where
  "latch_inv s =
     (unat (reader_count (st s)) = count_pc is_reader (threads s) \<and>
      count_pc active_writer (threads s) = (if writer_entered (st s) then 1 else 0) \<and>
      (0 < count_pc holds_write (threads s) \<longrightarrow> reader_count (st s) = 0))"

text \<open>Where the thread that has run a piece of code is afterwards.\<close>

fun next_pc :: "point \<Rightarrow> result \<Rightarrow> pc" where
  "next_pc p (Wait cv q) = Waiting cv q"
| "next_pc p (Return n) = after p"

text \<open>The thread inside a piece of code is the one that holds \<^verbatim>\<open>mutex_\<close>.\<close>

fun is_running :: "pc \<Rightarrow> bool" where
  "is_running (Running p) = True"
| "is_running _ = False"

definition mutex_inv :: "sys \<Rightarrow> bool" where
  "mutex_inv s = (\<forall>j<length (threads s). is_running (threads s ! j) = (mutex s = Some j))"

text \<open>
  A thread that a notification or a spurious wake-up has taken out of \<^verbatim>\<open>wait\<close>: parked
  before the step, no longer parked after it.
\<close>

fun is_waiting :: "pc \<Rightarrow> bool" where
  "is_waiting (Waiting c p) = True"
| "is_waiting _ = False"

definition unparked :: "pc list \<Rightarrow> pc list \<Rightarrow> nat \<Rightarrow> bool" where
  "unparked ts ts' j = (j < length ts \<and> is_waiting (ts ! j) \<and> \<not> is_waiting (ts' ! j))"

text \<open>
  The three \<^verbatim>\<open>wait\<close> calls of the source: line 52 (on \<^verbatim>\<open>reader_\<close>, first loop of
  \<^verbatim>\<open>WLock\<close>), line 57 (on \<^verbatim>\<open>writer_\<close>, second loop of \<^verbatim>\<open>WLock\<close>) and line 78 (on
  \<^verbatim>\<open>reader_\<close>, the loop of \<^verbatim>\<open>RLock\<close>).
\<close>

fun wait_ok :: "pc \<Rightarrow> bool" where
  "wait_ok (Waiting c p) =
     (c = reader_cv \<and> p = L_WLock1 \<or> c = writer_cv \<and> p = L_WLock2 \<or> c = reader_cv \<and> p = L_RLock)"
| "wait_ok _ = True"

definition wait_inv :: "sys \<Rightarrow> bool" where
  "wait_inv s = (\<forall>j<length (threads s). wait_ok (threads s ! j))"

text \<open>
  The wake policy of ReleaseRead in the words of the specification, to be compared with
  what \<open>RUnlock\<close> does: a writer is active and the decremented count is 0, then one
  writer-waiter; no writer is active and the count was at the maximum sentinel before the
  decrement, then one reader-waiter; otherwise no one.
\<close>

definition spec_ReleaseRead_wakes :: "LockState \<Rightarrow> cond_t option" where
  "spec_ReleaseRead_wakes s =
     (if writer_entered s \<and> reader_count s - 1 = 0 then Some writer_cv
      else if \<not> writer_entered s \<and> reader_count s = MAX_READERS then Some reader_cv
      else None)"

text \<open>
  A caller that performs a method \<open>n\<close> times in a row while nothing else runs: a call
  that parks would never come back, which is \<open>None\<close>.
\<close>

fun repeat :: "nat \<Rightarrow> (LockState \<Rightarrow> LockState \<times> result) \<Rightarrow> LockState \<Rightarrow> LockState option" where
  "repeat 0 f s = Some s"
| "repeat (Suc n) f s =
     (case f s of (s', Return m) \<Rightarrow> repeat n f s' | (s', Wait cv q) \<Rightarrow> None)"

text \<open>
  Thread \<open>t\<close> calls \<^verbatim>\<open>RLock\<close>, takes the mutex and runs the body; \<open>admit_all n\<close> lets the
  threads \<open>0\<close> to \<open>n - 1\<close> do so one after the other.
\<close>

fun admit :: "nat \<Rightarrow> action list" where
  "admit t = [Call t M_RLock, Lock t, Run t None]"

definition admit_all :: "nat \<Rightarrow> action list" where
  "admit_all n = concat (map admit [0..<n])"

text \<open>No thread has left the body of the destructor yet.\<close>

definition no_finalizing :: "sys \<Rightarrow> bool" where
  "no_finalizing s = (\<forall>i<length (threads s). threads s ! i \<noteq> Finalizing)"

section \<open>Invariants of the reachable states\<close>

lemma MAX_READERS_minus1: "MAX_READERS = - 1"
  by (simp add: MAX_READERS_def)

lemma inc_unat: "(x::uint32_t) \<noteq> MAX_READERS \<Longrightarrow> unat (x + 1) = Suc (unat x)"
proof -
  assume "x \<noteq> MAX_READERS"
  then have "1 + x \<noteq> 0" 
    by (metis MAX_READERS_minus1 add.commute add_eq_0_iff)
  then show ?thesis
    using unatSuc [of x] by (simp add: add.commute)
qed

lemma dec_unat: "(x::uint32_t) \<noteq> 0 \<Longrightarrow> Suc (unat (x - 1)) = unat x"
  by (simp add: unat_minus_one unat_gt_0)

lemma count_pc_upd:
  "t < length ts \<Longrightarrow>
   count_pc P (ts[t := y]) + (if P (ts ! t) then 1 else 0) = count_pc P ts + (if P y then 1 else 0)"
proof (induction ts arbitrary: t)
  case Nil
  then show ?case by simp
next
  case (Cons x xs)
  show ?case
  proof (cases t)
    case 0
    then show ?thesis by (simp add: count_pc_def)
  next
    case (Suc k)
    with Cons.prems have "k < length xs" by simp
    from Cons.IH [OF this] Suc show ?thesis by (simp add: count_pc_def)
  qed
qed

lemma count_pc_pos: "t < length ts \<Longrightarrow> P (ts ! t) \<Longrightarrow> 0 < count_pc P ts"
  unfolding count_pc_def by (metis length_pos_if_in_set mem_Collect_eq nth_mem set_filter)

lemma count_pc_same:
  "t < length ts \<Longrightarrow> P y = P (ts ! t) \<Longrightarrow> count_pc P (ts[t := y]) = count_pc P ts"
  using count_pc_upd [of t ts P y] by simp

lemma count_pc_map: "(\<And>x. P (f x) = P x) \<Longrightarrow> count_pc P (map f ts) = count_pc P ts"
  by (induction ts) (simp_all add: count_pc_def)

lemma at_point_wake: "at_point (wake cv x) = at_point x"
  by (cases x) simp_all

lemma wake_Reading: "(wake cv x = Reading) = (x = Reading)"
  by (cases x) simp_all

lemma wake_Writing: "(wake cv x = Writing) = (x = Writing)"
  by (cases x) simp_all

lemma is_reader_wake: "is_reader (wake cv x) = is_reader x"
  by (simp add: is_reader_def at_point_wake wake_Reading)

lemma holds_write_wake: "holds_write (wake cv x) = holds_write x"
  by (simp add: holds_write_def at_point_wake wake_Writing)

lemma active_writer_wake: "active_writer (wake cv x) = active_writer x"
  by (simp add: active_writer_def draining_def holds_write_wake at_point_wake)

lemma count_pc_deliver:
  assumes "deliver n w ts = Some ts'" and "\<And>cv x. P (wake cv x) = P x"
  shows "count_pc P ts' = count_pc P ts"
proof (cases n)
  case None
  with assms(1) show ?thesis by (simp split: if_splits)
next
  case (Some m)
  show ?thesis
  proof (cases m)
    case (notify_all cv)
    with Some assms show ?thesis by (auto simp: count_pc_map split: if_splits)
  next
    case (notify_one cv)
    show ?thesis
    proof (cases w)
      case None
      with Some notify_one assms(1) show ?thesis by (simp split: if_splits)
    next
      case (Some j)
      with \<open>n = Some m\<close> notify_one assms show ?thesis
        by (auto simp: count_pc_same split: if_splits)
    qed
  qed
qed

lemma length_deliver: "deliver n w ts = Some ts' \<Longrightarrow> length ts' = length ts"
  by (cases "(n, w, ts)" rule: deliver.cases) (auto split: if_splits)

lemma Run_effect:
  assumes "step s (Run t w) = Some s'"
  obtains p where "t < length (threads s)" and "threads s ! t = Running p"
    and "st s' = fst (body p (st s))"
    and "\<And>P. (\<And>cv x. P (wake cv x) = P x) \<Longrightarrow>
           count_pc P (threads s') + (if P (Running p) then 1 else 0) =
           count_pc P (threads s) + (if P (next_pc p (snd (body p (st s)))) then 1 else 0)"
proof -
  from assms obtain p where t: "t < length (threads s)" and pc: "threads s ! t = Running p"
    by (auto split: if_splits pc.splits)
  obtain l' r where b: "body p (st s) = (l', r)" by (cases "body p (st s)")
  show ?thesis
  proof (cases r)
    case (Wait cv q)
    with assms t pc b have s': "s' = s\<lparr>st := l', mutex := None, threads := (threads s)[t := Waiting cv q]\<rparr>"
      by (simp split: if_splits)
    show ?thesis
    proof (rule that [OF t pc])
      show "st s' = fst (body p (st s))" using s' b by simp
    next
      fix P :: "pc \<Rightarrow> bool"
      show "count_pc P (threads s') + (if P (Running p) then 1 else 0) =
           count_pc P (threads s) + (if P (next_pc p (snd (body p (st s)))) then 1 else 0)"
        using count_pc_upd [OF t, of P "Waiting cv q"] s' b Wait pc by simp
    qed
  next
    case (Return n)
    with assms t pc b obtain ts where d: "deliver n w ((threads s)[t := after p]) = Some ts"
      and s': "s' = s\<lparr>st := l', mutex := None, threads := ts\<rparr>"
      by (auto split: if_splits option.splits)
    show ?thesis
    proof (rule that [OF t pc])
      show "st s' = fst (body p (st s))" using s' b by simp
    next
      fix P :: "pc \<Rightarrow> bool"
      assume w: "\<And>cv x. P (wake cv x) = P x"
      have "count_pc P ts = count_pc P ((threads s)[t := after p])"
        using count_pc_deliver [OF d] w by blast
      then show "count_pc P (threads s') + (if P (Running p) then 1 else 0) =
           count_pc P (threads s) + (if P (next_pc p (snd (body p (st s)))) then 1 else 0)"
        using count_pc_upd [OF t, of P "after p"] s' b Return pc by simp
    qed
  qed
qed

lemma holds_le_active: "count_pc holds_write ts \<le> count_pc active_writer ts"
  by (induction ts) (auto simp: count_pc_def active_writer_def)

lemma latch_inv_Run:
  assumes inv: "latch_inv s" and stp: "step s (Run t w) = Some s'"
  shows "latch_inv s'"
  using stp
proof (rule Run_effect)
  fix p
  assume t: "t < length (threads s)" and pc: "threads s ! t = Running p"
    and l: "st s' = fst (body p (st s))"
    and c: "\<And>P. (\<And>cv x. P (wake cv x) = P x) \<Longrightarrow>
           count_pc P (threads s') + (if P (Running p) then 1 else 0) =
           count_pc P (threads s) + (if P (next_pc p (snd (body p (st s)))) then 1 else 0)"
  note cr = c [of is_reader, OF is_reader_wake]
  note ca = c [of active_writer, OF active_writer_wake]
  note ch = c [of holds_write, OF holds_write_wake]
  note le = holds_le_active [of "threads s"]
  note pr = count_pc_pos [OF t, of is_reader] count_pc_pos [OF t, of active_writer]
    count_pc_pos [OF t, of holds_write]
  show ?thesis
  proof (cases p)
    case L_WLock1
    with inv l cr ca ch le show ?thesis
      by (auto simp: latch_inv_def WLock_def WLock_drain_def is_reader_def active_writer_def
          holds_write_def draining_def word_greater_zero_iff split: if_splits)
  next
    case L_WLock2
    with inv l cr ca ch le show ?thesis
      by (auto simp: latch_inv_def WLock_def WLock_drain_def is_reader_def active_writer_def
          holds_write_def draining_def word_greater_zero_iff split: if_splits)
  next
    case L_RLock
    with inv l cr ca ch le show ?thesis
      by (auto simp: latch_inv_def RLock_def is_reader_def active_writer_def
          holds_write_def draining_def inc_unat split: if_splits)
  next
    case L_WUnlock
    with inv l cr ca ch le pr pc show ?thesis
      by (auto simp: latch_inv_def WUnlock_def is_reader_def active_writer_def
          holds_write_def draining_def split: if_splits)
  next
    case L_RUnlock
    have nz: "reader_count (st s) \<noteq> 0"
      using inv pr(1) pc L_RUnlock by (auto simp: latch_inv_def is_reader_def)
    from L_RUnlock inv l cr ca ch le pr pc dec_unat [OF nz] show ?thesis
      by (auto simp: latch_inv_def RUnlock_def Let_def is_reader_def active_writer_def
          holds_write_def draining_def split: if_splits)
  next
    case L_Dtor
    with inv l cr ca ch le show ?thesis
      by (auto simp: latch_inv_def is_reader_def active_writer_def
          holds_write_def draining_def split: if_splits)
  qed
qed

lemma count_pc_replicate: "\<not> P x \<Longrightarrow> count_pc P (replicate n x) = 0"
  by (simp add: count_pc_def)

lemma count_pc_zero_iff: "count_pc P ts = 0 \<longleftrightarrow> (\<forall>i<length ts. \<not> P (ts ! i))"
  unfolding count_pc_def length_0_conv filter_empty_conv
  by (metis in_set_conv_nth nth_mem)

lemma count_pc_unique:
  "count_pc P ts \<le> 1 \<Longrightarrow> i < length ts \<Longrightarrow> j < length ts \<Longrightarrow> P (ts ! i) \<Longrightarrow> P (ts ! j) \<Longrightarrow> i = j"
proof (induction ts arbitrary: i j)
  case Nil
  then show ?case by simp
next
  case (Cons x xs)
  show ?case
  proof (cases "P x")
    case True
    with Cons.prems(1) have z: "count_pc P xs = 0" by (simp add: count_pc_def)
    have "i = 0"
    proof (cases i)
      case (Suc k)
      with Cons.prems z show ?thesis by (auto simp: count_pc_zero_iff)
    qed simp
    moreover have "j = 0"
    proof (cases j)
      case (Suc k)
      with Cons.prems z show ?thesis by (auto simp: count_pc_zero_iff)
    qed simp
    ultimately show ?thesis by simp
  next
    case False
    with Cons.prems(1) have le: "count_pc P xs \<le> 1" by (simp add: count_pc_def)
    from False Cons.prems obtain i' j' where ij: "i = Suc i'" "j = Suc j'"
      by (cases i; cases j) auto
    with Cons.prems have "i' < length xs" "j' < length xs" "P (xs ! i')" "P (xs ! j')" by auto
    from Cons.IH [OF le this] ij show ?thesis by simp
  qed
qed

lemma entry_at_point:
  "entry x m = Some p \<Longrightarrow>
   is_reader (Acquiring p) = is_reader x \<and> holds_write (Acquiring p) = holds_write x \<and>
   active_writer (Acquiring p) = active_writer x \<and> \<not> is_running x"
  by (cases "(x, m)" rule: entry.cases)
    (auto simp: is_reader_def holds_write_def active_writer_def draining_def)

lemma latch_inv_Call:
  assumes "latch_inv s" and "step s (Call t m) = Some s'"
  shows "latch_inv s'"
proof -
  from assms(2) obtain p where t: "t < length (threads s)"
    and e: "entry (threads s ! t) m = Some p"
    and s': "s' = s\<lparr>threads := (threads s)[t := Acquiring p]\<rparr>"
    by (auto split: if_splits option.splits)
  from entry_at_point [OF e] t assms(1) s' show ?thesis
    by (simp add: latch_inv_def count_pc_same)
qed

lemma latch_inv_Lock:
  assumes "latch_inv s" and "step s (Lock t) = Some s'"
  shows "latch_inv s'"
proof -
  from assms(2) obtain p where t: "t < length (threads s)"
    and e: "threads s ! t = Acquiring p"
    and s': "s' = s\<lparr>mutex := Some t, threads := (threads s)[t := Running p]\<rparr>"
    by (auto split: if_splits pc.splits)
  from e t assms(1) s' show ?thesis
    by (simp add: latch_inv_def count_pc_same is_reader_def holds_write_def active_writer_def
        draining_def)
qed

lemma latch_inv_Spurious:
  assumes "latch_inv s" and "step s (Spurious t) = Some s'"
  shows "latch_inv s'"
proof -
  from assms(2) obtain cv p where t: "t < length (threads s)"
    and e: "threads s ! t = Waiting cv p"
    and s': "s' = s\<lparr>threads := (threads s)[t := Acquiring p]\<rparr>"
    by (auto split: if_splits pc.splits)
  from e t assms(1) s' show ?thesis
    by (simp add: latch_inv_def count_pc_same is_reader_def holds_write_def active_writer_def
        draining_def)
qed

lemma latch_inv_Finalize:
  assumes "latch_inv s" and "step s (Finalize t) = Some s'"
  shows "latch_inv s'"
proof -
  from assms(2) have t: "t < length (threads s)"
    and e: "threads s ! t = Finalizing"
    and s': "s' = s\<lparr>threads := (threads s)[t := Idle], destroyed := True\<rparr>"
    by (auto split: if_splits pc.splits)
  from e t assms(1) s' show ?thesis
    by (simp add: latch_inv_def count_pc_same is_reader_def holds_write_def active_writer_def
        draining_def)
qed

lemma latch_inv_step: "latch_inv s \<Longrightarrow> step s a = Some s' \<Longrightarrow> latch_inv s'"
  by (cases a)
    (auto intro: latch_inv_Call latch_inv_Lock latch_inv_Run latch_inv_Spurious latch_inv_Finalize)

lemma latch_inv_init: "latch_inv (init n)"
  by (simp add: latch_inv_def init_def initial_def count_pc_replicate is_reader_def
      holds_write_def active_writer_def draining_def)

lemma latch_inv_run: "latch_inv s \<Longrightarrow> run s as = Some s' \<Longrightarrow> latch_inv s'"
proof (induction as arbitrary: s)
  case Nil
  then show ?case by simp
next
  case (Cons a as)
  then show ?case by (auto split: option.splits dest: latch_inv_step)
qed

lemma latch_inv_reachable: "run (init n) as = Some s \<Longrightarrow> latch_inv s"
  using latch_inv_init latch_inv_run by blast

lemma is_running_wake: "is_running (wake cv x) = is_running x"
  by (cases x) simp_all

lemma deliver_nth:
  "deliver n w ts = Some ts' \<Longrightarrow> j < length ts \<Longrightarrow> ts' ! j = ts ! j \<or> (\<exists>cv. ts' ! j = wake cv (ts ! j))"
  by (cases "(n, w, ts)" rule: deliver.cases) (auto split: if_splits simp: nth_list_update)

lemma mutex_inv_step:
  assumes "mutex_inv s" and "step s a = Some s'"
  shows "mutex_inv s'"
proof (cases a)
  case (Call t m)
  with assms(2) obtain p where t: "t < length (threads s)"
    and e: "entry (threads s ! t) m = Some p"
    and s': "s' = s\<lparr>threads := (threads s)[t := Acquiring p]\<rparr>"
    by (auto split: if_splits option.splits)
  from entry_at_point [OF e] t assms(1) s' show ?thesis
    by (auto simp: mutex_inv_def nth_list_update)
next
  case (Lock t)
  with assms(2) obtain p where t: "t < length (threads s)"
    and e: "threads s ! t = Acquiring p" and m: "mutex s = None"
    and s': "s' = s\<lparr>mutex := Some t, threads := (threads s)[t := Running p]\<rparr>"
    by (auto split: if_splits pc.splits)
  from e t m assms(1) s' show ?thesis
    by (auto simp: mutex_inv_def nth_list_update)
next
  case (Run t w)
  with assms(2) obtain p where t: "t < length (threads s)" and pc: "threads s ! t = Running p"
    by (auto split: if_splits pc.splits)
  obtain l' r where b: "body p (st s) = (l', r)" by (cases "body p (st s)")
  from assms(1) t pc have others: "\<And>j. j < length (threads s) \<Longrightarrow> j \<noteq> t \<Longrightarrow> \<not> is_running (threads s ! j)"
    by (auto simp: mutex_inv_def)
  show ?thesis
  proof (cases r)
    case (Wait cv q)
    with assms(2) Run t pc b have s': "s' = s\<lparr>st := l', mutex := None, threads := (threads s)[t := Waiting cv q]\<rparr>"
      by (simp split: if_splits)
    with others t show ?thesis by (auto simp: mutex_inv_def nth_list_update split: if_splits)
  next
    case (Return n)
    with assms(2) Run t pc b obtain ts where d: "deliver n w ((threads s)[t := after p]) = Some ts"
      and s': "s' = s\<lparr>st := l', mutex := None, threads := ts\<rparr>"
      by (auto split: if_splits option.splits)
    have len: "length ts = length (threads s)" using length_deliver [OF d] by simp
    have "\<not> is_running (ts ! j)" if "j < length (threads s)" for j
    proof -
      have "\<not> is_running ((threads s)[t := after p] ! j)"
        using others [of j] that t by (cases p) (auto simp: nth_list_update)
      with deliver_nth [OF d, of j] that show ?thesis by (auto simp: is_running_wake)
    qed
    with s' len show ?thesis by (simp add: mutex_inv_def)
  qed
next
  case (Spurious t)
  with assms(2) obtain cv p where t: "t < length (threads s)"
    and e: "threads s ! t = Waiting cv p"
    and s': "s' = s\<lparr>threads := (threads s)[t := Acquiring p]\<rparr>"
    by (auto split: if_splits pc.splits)
  from e t assms(1) s' show ?thesis
    by (auto simp: mutex_inv_def nth_list_update)
next
  case (Finalize t)
  with assms(2) have t: "t < length (threads s)"
    and e: "threads s ! t = Finalizing"
    and s': "s' = s\<lparr>threads := (threads s)[t := Idle], destroyed := True\<rparr>"
    by (auto split: if_splits pc.splits)
  from e t assms(1) s' show ?thesis
    by (auto simp: mutex_inv_def nth_list_update)
qed

lemma mutex_inv_run: "mutex_inv s \<Longrightarrow> run s as = Some s' \<Longrightarrow> mutex_inv s'"
proof (induction as arbitrary: s)
  case Nil
  then show ?case by simp
next
  case (Cons a as)
  then show ?case by (auto split: option.splits dest: mutex_inv_step)
qed

lemma mutex_inv_reachable: "run (init n) as = Some s \<Longrightarrow> mutex_inv s"
  using mutex_inv_run [of "init n" as s] by (simp add: mutex_inv_def init_def)


lemma init_2: "init 2 = \<lparr>st = initial, mutex = None, threads = [Idle, Idle], destroyed = False\<rparr>"
  by (simp add: init_def numeral_2_eq_2)

lemma init_3: "init 3 = \<lparr>st = initial, mutex = None, threads = [Idle, Idle, Idle], destroyed = False\<rparr>"
  by (simp add: init_def numeral_3_eq_3)

lemma list_update_2: "(a # b # c # xs)[2 := y] = a # b # y # xs"
  by (simp add: numeral_2_eq_2)

lemma Run_Return:
  assumes "step s (Run t w) = Some s'" and "threads s ! t = Running p"
    and "body p (st s) = (l', Return n)"
  shows "t < length (threads s) \<and> deliver n w ((threads s)[t := after p]) = Some (threads s') \<and>
         st s' = l' \<and> mutex s' = None \<and> destroyed s' = destroyed s"
  using assms by (auto split: if_splits option.splits)

lemma Run_Wait:
  assumes "step s (Run t w) = Some s'" and "threads s ! t = Running p"
    and "body p (st s) = (l', Wait cv q)"
  shows "t < length (threads s) \<and> w = None \<and> threads s' = (threads s)[t := Waiting cv q] \<and>
         st s' = l' \<and> mutex s' = None \<and> destroyed s' = destroyed s"
  using assms by (auto split: if_splits option.splits)

lemma deliver_one:
  "deliver (Some (notify_one cv)) w ts = Some ts' \<Longrightarrow>
     (if list_ex (parked_on cv) ts
      then \<exists>j. w = Some j \<and> j < length ts \<and> parked_on cv (ts ! j) \<and> ts' = ts[j := wake cv (ts ! j)]
      else w = None \<and> ts' = ts)"
  by (cases w) (auto split: if_splits simp: list_ex_length)

lemma parked_on_waiting: "parked_on cv x \<Longrightarrow> is_waiting x \<and> \<not> is_waiting (wake cv x)"
  by (cases x) auto

lemma unat_MAX_READERS: "unat MAX_READERS = 2 ^ 32 - 1"
  by (simp add: MAX_READERS_def)

lemma MAX_READERS_neq: "MAX_READERS \<noteq> 0" "MAX_READERS \<noteq> MAX_READERS - 1" "0 \<noteq> MAX_READERS"
  by (simp_all add: MAX_READERS_def)

lemma RUnlock_result:
  "RUnlock s = (s\<lparr>reader_count := reader_count s - 1\<rparr>,
                Return (map_option notify_one (spec_ReleaseRead_wakes s)))"
  by (simp add: RUnlock_def spec_ReleaseRead_wakes_def Let_def)

lemma unparked_none: "\<not> is_waiting (ts ! t) \<Longrightarrow> \<not> is_waiting y \<Longrightarrow> \<not> unparked ts (ts[t := y]) i"
  by (cases "i = t") (simp_all add: unparked_def)

lemma unparked_one:
  assumes "\<not> is_waiting (ts ! t)" and "\<not> is_waiting y" and "j < length ts"
    and "parked_on cv (ts[t := y] ! j)"
  shows "unparked ts (ts[t := y, j := wake cv (ts[t := y] ! j)]) i = (i = j)"
proof -
  have len: "j < length (ts[t := y])" using assms(3) by simp
  have jt: "j \<noteq> t"
  proof
    assume "j = t"
    with assms(3,4) have "parked_on cv y" by simp
    with assms(2) show False by (simp add: parked_on_waiting)
  qed
  with assms(4) have pj: "parked_on cv (ts ! j)" by simp
  show ?thesis
  proof (cases "i = j")
    case True
    with len jt pj assms(3) show ?thesis
      by (simp add: unparked_def parked_on_waiting)
  next
    case False
    then have "ts[t := y, j := wake cv (ts[t := y] ! j)] ! i = ts[t := y] ! i" by simp
    with False unparked_none [OF assms(1,2), of i] show ?thesis
      by (simp add: unparked_def)
  qed
qed

lemma nth_update_pred: "P (ts ! j) \<Longrightarrow> P y \<Longrightarrow> P (ts[t := y] ! j)"
  by (cases "t < length ts") (auto simp: nth_list_update list_update_beyond)

lemma wait_ok_wake: "wait_ok x \<Longrightarrow> wait_ok (wake cv x)"
  by (cases x) auto

lemma wait_inv_step:
  assumes "wait_inv s" and "step s a = Some s'"
  shows "wait_inv s'"
proof (cases a)
  case (Call t m)
  with assms(2) obtain p where "s' = s\<lparr>threads := (threads s)[t := Acquiring p]\<rparr>"
    by (auto split: if_splits option.splits)
  with assms(1) show ?thesis by (auto simp: wait_inv_def intro: nth_update_pred)
next
  case (Lock t)
  with assms(2) obtain p where "s' = s\<lparr>mutex := Some t, threads := (threads s)[t := Running p]\<rparr>"
    by (auto split: if_splits pc.splits)
  with assms(1) show ?thesis by (auto simp: wait_inv_def intro: nth_update_pred)
next
  case (Run t w)
  with assms(2) obtain p where t: "t < length (threads s)" and pc: "threads s ! t = Running p"
    by (auto split: if_splits pc.splits)
  obtain l' r where b: "body p (st s) = (l', r)" by (cases "body p (st s)")
  show ?thesis
  proof (cases r)
    case (Wait cv q)
    from Run_Wait [OF assms(2) [unfolded Run] pc b [unfolded Wait]]
    have ts: "threads s' = (threads s)[t := Waiting cv q]" by simp
    from b Wait have "wait_ok (Waiting cv q)"
      by (cases p) (auto simp: WLock_def WLock_drain_def RLock_def WUnlock_def RUnlock_def Let_def
          split: if_splits)
    with assms(1) ts show ?thesis by (auto simp: wait_inv_def intro: nth_update_pred)
  next
    case (Return n)
    from Run_Return [OF assms(2) [unfolded Run] pc b [unfolded Return]]
    have d: "deliver n w ((threads s)[t := after p]) = Some (threads s')" by simp
    have len: "length (threads s') = length (threads s)" using length_deliver [OF d] by simp
    have "wait_ok (threads s' ! j)" if "j < length (threads s)" for j
    proof -
      have "wait_ok ((threads s)[t := after p] ! j)"
        using assms(1) that by (cases p) (auto simp: wait_inv_def intro: nth_update_pred)
      with deliver_nth [OF d, of j] that show ?thesis by (auto simp: wait_ok_wake)
    qed
    with len show ?thesis by (simp add: wait_inv_def)
  qed
next
  case (Spurious t)
  with assms(2) obtain p where "s' = s\<lparr>threads := (threads s)[t := Acquiring p]\<rparr>"
    by (auto split: if_splits pc.splits)
  with assms(1) show ?thesis by (auto simp: wait_inv_def intro: nth_update_pred)
next
  case (Finalize t)
  with assms(2) have "s' = s\<lparr>threads := (threads s)[t := Idle], destroyed := True\<rparr>"
    by (auto split: if_splits pc.splits)
  with assms(1) show ?thesis by (auto simp: wait_inv_def intro: nth_update_pred)
qed

lemma wait_inv_run: "wait_inv s \<Longrightarrow> run s as = Some s' \<Longrightarrow> wait_inv s'"
proof (induction as arbitrary: s)
  case Nil
  then show ?case by simp
next
  case (Cons a as)
  then show ?case by (auto split: option.splits dest: wait_inv_step)
qed

lemma wait_inv_reachable: "run (init n) as = Some s \<Longrightarrow> wait_inv s"
  using wait_inv_run [of "init n" as s] by (simp add: wait_inv_def init_def)

lemma Run_pc:
  assumes "step s (Run t w) = Some s'"
  obtains p where "t < length (threads s)" and "threads s ! t = Running p"
  using assms by (auto split: if_splits pc.splits)

lemma deliver_self:
  assumes "deliver n w ts = Some ts'" and "t < length ts" and "\<not> is_waiting (ts ! t)"
  shows "ts' ! t = ts ! t"
proof -
  have "wake cv (ts ! t) = ts ! t" for cv using assms(3) by (cases "ts ! t") simp_all
  with deliver_nth [OF assms(1,2)] show ?thesis by auto
qed

lemma Run_Return_self:
  assumes "step s (Run t w) = Some s'" and "threads s ! t = Running p"
    and "body p (st s) = (l', Return n)"
  shows "threads s' ! t = after p"
proof -
  from Run_Return [OF assms] have t: "t < length (threads s)"
    and d: "deliver n w ((threads s)[t := after p]) = Some (threads s')" by simp_all
  have "\<not> is_waiting ((threads s)[t := after p] ! t)" using t by (cases p) simp_all
  from deliver_self [OF d _ this] t show ?thesis by simp
qed

lemma latch_inv_flag:
  "latch_inv s \<Longrightarrow> writer_entered (st s) = (\<exists>i<length (threads s). active_writer (threads s ! i))"
  using count_pc_zero_iff [of active_writer "threads s"]
  by (auto simp: latch_inv_def split: if_splits)

lemma latch_inv_unique:
  assumes "latch_inv s" and "i < length (threads s)" and "j < length (threads s)"
    and "active_writer (threads s ! i)" and "active_writer (threads s ! j)"
  shows "i = j"
proof -
  from assms(1) have "count_pc active_writer (threads s) \<le> 1" by (simp add: latch_inv_def)
  from count_pc_unique [OF this assms(2-5)] show ?thesis .
qed

lemma latch_inv_excl:
  assumes "latch_inv s" and "i < length (threads s)" and "holds_write (threads s ! i)"
  shows "reader_count (st s) = 0 \<and> writer_entered (st s) \<and>
         (\<forall>j<length (threads s). \<not> is_reader (threads s ! j))"
proof -
  from assms(2,3) have "0 < count_pc holds_write (threads s)" by (rule count_pc_pos)
  with assms(1) have z: "reader_count (st s) = 0" by (simp add: latch_inv_def)
  with assms(1) have "count_pc is_reader (threads s) = 0" by (simp add: latch_inv_def)
  then have "\<forall>j<length (threads s). \<not> is_reader (threads s ! j)" by (simp add: count_pc_zero_iff)
  moreover from assms have "writer_entered (st s)"
    by (auto simp: latch_inv_flag active_writer_def)
  ultimately show ?thesis using z by simp
qed

lemma length_step:
  assumes "step s a = Some s'"
  shows "length (threads s') = length (threads s)"
proof (cases a)
  case (Run t w)
  from assms [unfolded Run] obtain p where pc: "threads s ! t = Running p" by (rule Run_pc)
  obtain l' r where b: "body p (st s) = (l', r)" by (cases "body p (st s)")
  show ?thesis
  proof (cases r)
    case (Wait cv q)
    from Run_Wait [OF assms [unfolded Run] pc b [unfolded Wait]] show ?thesis by simp
  next
    case (Return m)
    from Run_Return [OF assms [unfolded Run] pc b [unfolded Return]]
    have "deliver m w ((threads s)[t := after p]) = Some (threads s')" by simp
    from length_deliver [OF this] show ?thesis by simp
  qed
qed (use assms in \<open>auto split: if_splits option.splits pc.splits\<close>)

lemma Run_Wait_self:
  assumes "step s (Run t w) = Some s'" and "threads s ! t = Running p"
    and "body p (st s) = (l', Wait cv q)"
  shows "threads s' ! t = Waiting cv q"
  using Run_Wait [OF assms] by simp

lemma of_nat_eq_MAX: "k < 2 ^ 32 \<Longrightarrow> ((of_nat k :: uint32_t) = MAX_READERS) = (k = 2 ^ 32 - 1)"
proof -
  assume k: "k < 2 ^ 32"
  have "unat (of_nat k :: uint32_t) = k" using k by (simp add: unat_of_nat)
  moreover have "unat MAX_READERS = 2 ^ 32 - 1" by (simp add: MAX_READERS_def)
  ultimately show ?thesis by (metis word_unat_eq_iff)
qed

lemma repeat_RLock:
  "k < 2 ^ 32 \<Longrightarrow>
   repeat n RLock \<lparr>reader_count = of_nat k, writer_entered = False\<rparr> =
     (if k + n < 2 ^ 32 then Some \<lparr>reader_count = of_nat (k + n), writer_entered = False\<rparr> else None)"
proof (induction n arbitrary: k)
  case 0
  then show ?case by simp
next
  case (Suc n)
  let ?s = "\<lparr>reader_count = of_nat k, writer_entered = False\<rparr>"
  show ?case
  proof (cases "k = 2 ^ 32 - 1")
    case True
    with Suc.prems have "(of_nat k :: uint32_t) = MAX_READERS"
      by (simp only: of_nat_eq_MAX)
    then have "RLock ?s = (?s, Wait reader_cv L_RLock)"
      by (simp add: RLock_def)
    with True show ?thesis by simp
  next
    case False
    with Suc.prems have k: "Suc k < 2 ^ 32" by simp
    have "of_nat k + (1::uint32_t) = of_nat (Suc k)" by simp
    with False Suc.prems
    have "RLock ?s = (\<lparr>reader_count = of_nat (Suc k), writer_entered = False\<rparr>, Return None)"
      by (simp add: RLock_def of_nat_eq_MAX del: of_nat_Suc)
    with Suc.IH [OF k] show ?thesis by simp
  qed
qed

lemma repeat_RUnlock:
  "repeat n RUnlock \<lparr>reader_count = of_nat (k + n), writer_entered = b\<rparr> =
     Some \<lparr>reader_count = of_nat k, writer_entered = b\<rparr>"
proof (induction n)
  case 0
  then show ?case by simp
next
  case (Suc n)
  have "(of_nat (k + Suc n) :: uint32_t) - 1 = of_nat (k + n)" by simp
  then have "\<exists>m. RUnlock \<lparr>reader_count = of_nat (k + Suc n), writer_entered = b\<rparr> =
     (\<lparr>reader_count = of_nat (k + n), writer_entered = b\<rparr>, Return m)"
    by (simp add: RUnlock_def Let_def del: of_nat_Suc of_nat_add)
  with Suc show ?case by auto
qed

lemma repeat_numeral:
  "repeat (numeral k) f s =
     (case f s of (s', Return m) \<Rightarrow> repeat (pred_numeral k) f s' | (s', Wait cv q) \<Rightarrow> None)"
  by (simp add: numeral_eq_Suc)

lemma run_append:
  "run s (as @ bs) = (case run s as of None \<Rightarrow> None | Some s' \<Rightarrow> run s' bs)"
  by (induction as arbitrary: s) (auto split: option.splits)

lemma run_admit:
  assumes "\<not> destroyed s" and "t < length (threads s)" and "threads s ! t = Idle"
    and "mutex s = None" and "RLock (st s) = (l', Return None)"
  shows "run s (admit t) = Some (s\<lparr>st := l', threads := (threads s)[t := Reading]\<rparr>)"
  using assms by simp

lemma replicate_update:
  "k < n \<Longrightarrow> (replicate k a @ replicate (n - k) b)[k := a] = replicate (Suc k) a @ replicate (n - Suc k) b"
proof -
  assume "k < n"
  then have "replicate (n - k) b = b # replicate (n - Suc k) b"
    by (cases "n - k") (auto simp: Suc_diff_Suc)
  then have "(replicate k a @ replicate (n - k) b)[k := a] = replicate k a @ a # replicate (n - Suc k) b"
    by (simp add: list_update_append)
  then show ?thesis by (simp add: replicate_app_Cons_same)
qed

lemma run_admit_all:
  "k \<le> n \<Longrightarrow> n < 2 ^ 32 \<Longrightarrow>
   run (init n) (admit_all k) =
     Some \<lparr>st = \<lparr>reader_count = of_nat k, writer_entered = False\<rparr>, mutex = None,
           threads = replicate k Reading @ replicate (n - k) Idle, destroyed = False\<rparr>"
proof (induction k)
  case 0
  then show ?case by (simp add: admit_all_def init_def initial_def)
next
  case (Suc k)
  let ?s = "\<lparr>st = \<lparr>reader_count = of_nat k, writer_entered = False\<rparr>, mutex = None,
           threads = replicate k Reading @ replicate (n - k) Idle, destroyed = False\<rparr>"
  from Suc have r: "run (init n) (admit_all k) = Some ?s" by simp
  from Suc.prems have k: "k < n" "k < 2 ^ 32" "k \<noteq> 2 ^ 32 - 1" by simp_all
  have "of_nat k + (1::uint32_t) = of_nat (Suc k)" by simp
  with k have l: "RLock (st ?s) = (\<lparr>reader_count = of_nat (Suc k), writer_entered = False\<rparr>, Return None)"
    by (simp add: RLock_def of_nat_eq_MAX del: of_nat_Suc)
  have i: "threads ?s ! k = Idle" using k(1) by (simp add: nth_append)
  have "run ?s (admit k) =
     Some (?s\<lparr>st := \<lparr>reader_count = of_nat (Suc k), writer_entered = False\<rparr>,
              threads := (threads ?s)[k := Reading]\<rparr>)"
    using k(1) i l by (intro run_admit) simp_all
  moreover have "admit_all (Suc k) = admit_all k @ admit k" by (simp add: admit_all_def)
  ultimately show ?case using r replicate_update [OF k(1), of Reading Idle]
    by (simp add: run_append del: admit.simps of_nat_Suc)
qed

lemma step_not_destroyed: "step s a = Some s' \<Longrightarrow> \<not> destroyed s"
  by (cases a) (auto split: if_splits)

lemma destroyed_step:
  assumes "step s a = Some s'" and "destroyed s'"
  shows "\<exists>d. a = Finalize d \<and> d < length (threads s) \<and> threads s ! d = Finalizing \<and> st s' = st s"
proof (cases a)
  case (Run t w)
  from assms(1) [unfolded Run] obtain p where t: "t < length (threads s)"
    and pc: "threads s ! t = Running p" by (rule Run_pc)
  have nd: "\<not> destroyed s" using assms(1) by (rule step_not_destroyed)
  obtain l' r where b: "body p (st s) = (l', r)" by (cases "body p (st s)")
  show ?thesis
  proof (cases r)
    case (Wait cv q)
    from Run_Wait [OF assms(1) [unfolded Run] pc b [unfolded Wait]] nd assms(2)
    show ?thesis by simp
  next
    case (Return m)
    from Run_Return [OF assms(1) [unfolded Run] pc b [unfolded Return]] nd assms(2)
    show ?thesis by simp
  qed
qed (use assms step_not_destroyed [OF assms(1)] in \<open>auto split: if_splits option.splits pc.splits\<close>)

lemma Finalizing_step:
  assumes "step s a = Some s'" and "t < length (threads s)"
    and "threads s' ! t = Finalizing" and "threads s ! t \<noteq> Finalizing"
  shows "a = Run t None \<and> threads s ! t = Running L_Dtor"
proof (cases a)
  case (Call u m)
  with assms(1) obtain p where "threads s' = (threads s)[u := Acquiring p]"
    by (auto split: if_splits option.splits)
  with assms(2-4) show ?thesis by (cases "u = t") simp_all
next
  case (Lock u)
  with assms(1) obtain p where "threads s' = (threads s)[u := Running p]"
    by (auto split: if_splits pc.splits)
  with assms(2-4) show ?thesis by (cases "u = t") simp_all
next
  case (Spurious u)
  with assms(1) obtain p where "threads s' = (threads s)[u := Acquiring p]"
    by (auto split: if_splits pc.splits)
  with assms(2-4) show ?thesis by (cases "u = t") simp_all
next
  case (Finalize u)
  with assms(1) have "threads s' = (threads s)[u := Idle]"
    by (auto split: if_splits pc.splits)
  with assms(2-4) show ?thesis by (cases "u = t") simp_all
next
  case (Run u w)
  from assms(1) [unfolded Run] obtain p where u: "u < length (threads s)"
    and pc: "threads s ! u = Running p" by (rule Run_pc)
  obtain l' r where b: "body p (st s) = (l', r)" by (cases "body p (st s)")
  have same: "threads s' ! t \<noteq> Finalizing" if "u \<noteq> t" "deliver m w ((threads s)[u := y]) = Some (threads s')" for m y
  proof -
    from deliver_nth [OF that(2), of t] assms(2) that(1)
    have "threads s' ! t = threads s ! t \<or> (\<exists>cv. threads s' ! t = wake cv (threads s ! t))" by simp
    with assms(4) show ?thesis by (cases "threads s ! t") (auto split: if_splits)
  qed
  show ?thesis
  proof (cases r)
    case (Wait cv q)
    from Run_Wait [OF assms(1) [unfolded Run] pc b [unfolded Wait]] assms(2-4)
    show ?thesis by (cases "u = t") simp_all
  next
    case (Return m)
    note R = Run_Return [OF assms(1) [unfolded Run] pc b [unfolded Return]]
    from R same [of m "after p"] assms(3) have ut: "u = t" by auto
    from Run_Return_self [OF assms(1) [unfolded Run] pc b [unfolded Return]] ut assms(3)
    have p: "p = L_Dtor" by (cases p) simp_all
    with b Return have "m = None" by simp
    with R have "w = None" by (simp split: if_splits)
    with Run ut pc p show ?thesis by simp
  qed
qed

lemma Run_others:
  assumes "step s (Run t w) = Some s'" and "j < length (threads s)" and "j \<noteq> t"
  shows "threads s' ! j = threads s ! j \<or> (\<exists>cv. threads s' ! j = wake cv (threads s ! j))"
proof -
  from assms(1) obtain p where pc: "threads s ! t = Running p" by (rule Run_pc)
  obtain l' r where b: "body p (st s) = (l', r)" by (cases "body p (st s)")
  show ?thesis
  proof (cases r)
    case (Wait cv q)
    from Run_Wait [OF assms(1) pc b [unfolded Wait]] assms(3) show ?thesis by simp
  next
    case (Return m)
    from Run_Return [OF assms(1) pc b [unfolded Return]]
    have "deliver m w ((threads s)[t := after p]) = Some (threads s')" by simp
    from deliver_nth [OF this, of j] assms(2,3) show ?thesis by simp
  qed
qed

lemma Run_self:
  assumes "step s (Run t w) = Some s'" and "threads s ! t = Running p"
  shows "threads s' ! t = next_pc p (snd (body p (st s)))"
proof -
  obtain l' r where b: "body p (st s) = (l', r)" by (cases "body p (st s)")
  show ?thesis
  proof (cases r)
    case (Wait cv q)
    from Run_Wait_self [OF assms b [unfolded Wait]] b Wait show ?thesis by simp
  next
    case (Return m)
    from Run_Return_self [OF assms b [unfolded Return]] b Return show ?thesis by simp
  qed
qed

lemma announced_step:
  assumes li: "latch_inv s" and w: "w < length (threads s)" and aw: "active_writer (threads s ! w)"
    and stp: "step s a = Some s'"
  shows "(\<exists>x. a = Run w x \<and> threads s ! w = Running L_WUnlock) \<or>
         (active_writer (threads s' ! w) \<and>
          (\<forall>r<length (threads s). is_reader (threads s' ! r) \<longrightarrow> is_reader (threads s ! r)))"
proof (cases a)
  case (Call t m)
  with stp obtain p where t: "t < length (threads s)"
    and e: "entry (threads s ! t) m = Some p"
    and s': "threads s' = (threads s)[t := Acquiring p]"
    by (auto split: if_splits option.splits)
  from entry_at_point [OF e] aw s' t show ?thesis
    by (auto simp: nth_list_update)
next
  case (Lock t)
  with stp obtain p where t: "t < length (threads s)"
    and e: "threads s ! t = Acquiring p"
    and s': "threads s' = (threads s)[t := Running p]"
    by (auto split: if_splits pc.splits)
  from e aw s' t show ?thesis
    by (auto simp: nth_list_update is_reader_def active_writer_def draining_def holds_write_def)
next
  case (Spurious t)
  with stp obtain cv p where t: "t < length (threads s)"
    and e: "threads s ! t = Waiting cv p"
    and s': "threads s' = (threads s)[t := Acquiring p]"
    by (auto split: if_splits pc.splits)
  from e aw s' t show ?thesis
    by (auto simp: nth_list_update is_reader_def active_writer_def draining_def holds_write_def)
next
  case (Finalize t)
  with stp have t: "t < length (threads s)"
    and e: "threads s ! t = Finalizing"
    and s': "threads s' = (threads s)[t := Idle]"
    by (auto split: if_splits pc.splits)
  from e aw s' t show ?thesis
    by (auto simp: nth_list_update is_reader_def active_writer_def draining_def holds_write_def)
next
  case (Run t x)
  from stp [unfolded Run] obtain p where t: "t < length (threads s)"
    and pc: "threads s ! t = Running p" by (rule Run_pc)
  note self = Run_self [OF stp [unfolded Run] pc]
  note others = Run_others [OF stp [unfolded Run]]
  from li w aw have we: "writer_entered (st s)" by (auto simp: latch_inv_flag)
  have keep_r: "is_reader (threads s ! r)" if "r < length (threads s)" "r \<noteq> t" "is_reader (threads s' ! r)" for r
    using others [OF that(1,2)] that(3) by (auto simp: is_reader_wake)
  have keep_a: "active_writer (threads s' ! w)" if "w \<noteq> t"
    using others [OF w that] aw by (auto simp: active_writer_wake)
  show ?thesis
  proof (cases "t = w")
    case True
    with pc aw have p: "p = L_WLock2 \<or> p = L_WUnlock"
      by (cases p) (auto simp: active_writer_def draining_def holds_write_def)
    show ?thesis
    proof (cases "p = L_WUnlock")
      case True
      with \<open>t = w\<close> pc Run show ?thesis by simp
    next
      case False
      with p have p2: "p = L_WLock2" by simp
      with self have sw: "threads s' ! t = Waiting writer_cv L_WLock2 \<or> threads s' ! t = Writing"
        by (simp add: WLock_drain_def split: if_splits)
      then have "active_writer (threads s' ! w)" "\<not> is_reader (threads s' ! t)"
        using \<open>t = w\<close> by (auto simp: active_writer_def draining_def holds_write_def is_reader_def)
      with keep_r show ?thesis by blast
    qed
  next
    case False
    then have wt: "w \<noteq> t" by simp
    have nact: "\<not> active_writer (Running p)"
      using latch_inv_unique [OF li t w _ aw] pc False by auto
    have "\<not> is_reader (threads s' ! t)"
    proof (cases p)
      case L_WLock1
      with self we show ?thesis by (simp add: WLock_def is_reader_def)
    next
      case L_WLock2
      with nact show ?thesis by (simp add: active_writer_def draining_def)
    next
      case L_RLock
      with self we show ?thesis by (simp add: RLock_def is_reader_def)
    next
      case L_WUnlock
      with nact show ?thesis by (simp add: active_writer_def holds_write_def)
    next
      case L_RUnlock
      with self show ?thesis by (simp add: RUnlock_def Let_def is_reader_def)
    next
      case L_Dtor
      with self show ?thesis by (simp add: is_reader_def)
    qed
    with keep_r keep_a [OF wt] show ?thesis by blast
  qed
qed

lemma announced_run:
  assumes "latch_inv s" and "w < length (threads s)" and "active_writer (threads s ! w)"
    and "run s bs = Some s'"
  shows "(\<exists>bs1 bs2 x u. bs = bs1 @ Run w x # bs2 \<and> run s bs1 = Some u \<and>
            threads u ! w = Running L_WUnlock) \<or>
         (active_writer (threads s' ! w) \<and>
          (\<forall>r<length (threads s). is_reader (threads s' ! r) \<longrightarrow> is_reader (threads s ! r)))"
  using assms
proof (induction bs arbitrary: s)
  case Nil
  then show ?case by simp
next
  case (Cons a bs)
  from Cons.prems(4) obtain s1 where stp: "step s a = Some s1" and rest: "run s1 bs = Some s'"
    by (auto split: option.splits)
  from announced_step [OF Cons.prems(1-3) stp]
  show ?case
  proof
    assume "\<exists>x. a = Run w x \<and> threads s ! w = Running L_WUnlock"
    then obtain x where "a # bs = [] @ Run w x # bs" "run s [] = Some s"
      "threads s ! w = Running L_WUnlock" by auto
    then show ?thesis by blast
  next
    assume k: "active_writer (threads s1 ! w) \<and>
          (\<forall>r<length (threads s). is_reader (threads s1 ! r) \<longrightarrow> is_reader (threads s ! r))"
    have len: "length (threads s1) = length (threads s)" using stp by (rule length_step)
    have li1: "latch_inv s1" using Cons.prems(1) stp by (rule latch_inv_step)
    from Cons.IH [OF li1 _ _ rest] k len Cons.prems(2)
    have "(\<exists>bs1 bs2 x u. bs = bs1 @ Run w x # bs2 \<and> run s1 bs1 = Some u \<and>
            threads u ! w = Running L_WUnlock) \<or>
         (active_writer (threads s' ! w) \<and>
          (\<forall>r<length (threads s1). is_reader (threads s' ! r) \<longrightarrow> is_reader (threads s1 ! r)))"
      by simp
    then show ?thesis
    proof
      assume "\<exists>bs1 bs2 x u. bs = bs1 @ Run w x # bs2 \<and> run s1 bs1 = Some u \<and>
            threads u ! w = Running L_WUnlock"
      then obtain bs1 bs2 x u where "bs = bs1 @ Run w x # bs2" "run s1 bs1 = Some u"
        "threads u ! w = Running L_WUnlock" by blast
      with stp have "a # bs = (a # bs1) @ Run w x # bs2" "run s (a # bs1) = Some u"
        "threads u ! w = Running L_WUnlock" by simp_all
      then show ?thesis by blast
    next
      assume "active_writer (threads s' ! w) \<and>
          (\<forall>r<length (threads s1). is_reader (threads s' ! r) \<longrightarrow> is_reader (threads s1 ! r))"
      with k len show ?thesis by auto
    qed
  qed
qed

lemma length_run: "run s as = Some s' \<Longrightarrow> length (threads s') = length (threads s)"
proof (induction as arbitrary: s)
  case Nil
  then show ?case by simp
next
  case (Cons a as)
  then show ?case by (auto split: option.splits dest: length_step)
qed

lemma count_pc_mono:
  "length ts' = length ts \<Longrightarrow> (\<forall>r<length ts. P (ts' ! r) \<longrightarrow> P (ts ! r)) \<Longrightarrow>
   count_pc P ts' \<le> count_pc P ts"
proof (induction ts' ts rule: list_induct2)
  case Nil
  then show ?case by (simp add: count_pc_def)
next
  case (Cons x xs y ys)
  from Cons.prems have h: "P x \<longrightarrow> P y" by auto
  from Cons.prems have "\<forall>r<length ys. P (xs ! r) \<longrightarrow> P (ys ! r)" by auto
  from Cons.IH [OF this] h show ?case by (auto simp: count_pc_def)
qed

lemma held_step:
  assumes j: "j < length (threads s)" and rj: "is_running (threads s ! j)"
    and m: "mutex s = Some j" and nf: "no_finalizing s" and stp: "step s a = Some s'"
  shows "(\<exists>x. a = Run j x) \<or>
         (threads s' ! j = threads s ! j \<and> mutex s' = Some j \<and> no_finalizing s' \<and>
          \<not> destroyed s')"
proof (cases a)
  case (Call t u)
  with stp obtain p where t: "t < length (threads s)" and e: "entry (threads s ! t) u = Some p"
    and s': "s' = s\<lparr>threads := (threads s)[t := Acquiring p]\<rparr>"
    by (auto split: if_splits option.splits)
  from entry_at_point [OF e] rj have "t \<noteq> j" by auto
  with s' t j rj m nf step_not_destroyed [OF stp] show ?thesis
    by (auto simp: no_finalizing_def nth_list_update)
next
  case (Lock t)
  with stp m show ?thesis by simp
next
  case (Run t x)
  with stp m show ?thesis by (auto split: if_splits)
next
  case (Spurious t)
  with stp obtain cv p where t: "t < length (threads s)" and e: "threads s ! t = Waiting cv p"
    and s': "s' = s\<lparr>threads := (threads s)[t := Acquiring p]\<rparr>"
    by (auto split: if_splits pc.splits)
  from e rj have "t \<noteq> j" by auto
  with s' t j rj m nf step_not_destroyed [OF stp] show ?thesis
    by (auto simp: no_finalizing_def nth_list_update)
next
  case (Finalize t)
  with stp have "t < length (threads s)" "threads s ! t = Finalizing"
    by (auto split: if_splits pc.splits)
  with nf show ?thesis by (simp add: no_finalizing_def)
qed

lemma held_run:
  assumes "j < length (threads s)" and "is_running (threads s ! j)" and "mutex s = Some j"
    and "no_finalizing s" and "\<not> destroyed s" and "run s bs = Some s'" and "destroyed s'"
  shows "\<exists>bs1 bs2 x u. bs = bs1 @ Run j x # bs2 \<and> run s bs1 = Some u \<and>
           threads u ! j = threads s ! j \<and> mutex u = Some j \<and> \<not> destroyed u"
  using assms
proof (induction bs arbitrary: s)
  case Nil
  then show ?case by simp
next
  case (Cons a bs)
  from Cons.prems(6) obtain s1 where stp: "step s a = Some s1" and rest: "run s1 bs = Some s'"
    by (auto split: option.splits)
  from held_step [OF Cons.prems(1-4) stp]
  show ?case
  proof
    assume "\<exists>x. a = Run j x"
    then obtain x where "a # bs = [] @ Run j x # bs" "run s [] = Some s" by auto
    with Cons.prems(3,5) show ?thesis by blast
  next
    assume k: "threads s1 ! j = threads s ! j \<and> mutex s1 = Some j \<and> no_finalizing s1 \<and>
          \<not> destroyed s1"
    have len: "length (threads s1) = length (threads s)" using stp by (rule length_step)
    from Cons.IH [OF _ _ _ _ _ rest Cons.prems(7)] k len Cons.prems(1,2)
    obtain bs1 bs2 x u where "bs = bs1 @ Run j x # bs2" "run s1 bs1 = Some u"
      "threads u ! j = threads s1 ! j" "mutex u = Some j" "\<not> destroyed u"
      by auto
    with stp k have "a # bs = (a # bs1) @ Run j x # bs2" "run s (a # bs1) = Some u"
      "threads u ! j = threads s ! j" "mutex u = Some j" "\<not> destroyed u" by simp_all
    then show ?thesis by blast
  qed
qed

section \<open>Mutual exclusion\<close>

text \<open>
  C1.  In every state that a sequence of steps reaches from the initial state of \<open>n\<close>
  threads: \<^verbatim>\<open>reader_count_\<close> is the number of readers; \<^verbatim>\<open>writer_entered_\<close> is set
  exactly when some thread is an active writer, and there is at most one; when a thread
  holds the write latch there is no reader, \<^verbatim>\<open>reader_count_\<close> is 0 and
  \<^verbatim>\<open>writer_entered_\<close> is set; and an active writer next to a non-zero reader count is
  still in the drain phase of \<^verbatim>\<open>WLock\<close>.
\<close>

theorem mutual_exclusion:
  "run (init n) as = Some s \<Longrightarrow>
   unat (reader_count (st s)) = count_pc is_reader (threads s) \<and>
   writer_entered (st s) = (\<exists>i<length (threads s). active_writer (threads s ! i)) \<and>
   (\<forall>i<length (threads s). \<forall>j<length (threads s).
      (active_writer (threads s ! i) \<and> active_writer (threads s ! j) \<longrightarrow> i = j) \<and>
      (holds_write (threads s ! i) \<longrightarrow>
         \<not> is_reader (threads s ! j) \<and> reader_count (st s) = 0 \<and> writer_entered (st s)) \<and>
      (active_writer (threads s ! i) \<and> 0 < reader_count (st s) \<longrightarrow> draining (threads s ! i)))"
proof -
  assume "run (init n) as = Some s"
  then have inv: "latch_inv s" by (rule latch_inv_reachable)
  let ?ts = "threads s"
  from inv have r: "unat (reader_count (st s)) = count_pc is_reader ?ts"
    and a: "count_pc active_writer ?ts = (if writer_entered (st s) then 1 else 0)"
    and h: "0 < count_pc holds_write ?ts \<longrightarrow> reader_count (st s) = 0"
    by (simp_all add: latch_inv_def)
  have w: "writer_entered (st s) = (\<exists>i<length ?ts. active_writer (?ts ! i))"
    using a count_pc_zero_iff [of active_writer ?ts] by (auto split: if_splits)
  have le: "count_pc active_writer ?ts \<le> 1" using a by simp
  have u: "i = j" if "i < length ?ts" "j < length ?ts" "active_writer (?ts ! i)" "active_writer (?ts ! j)" for i j
    using count_pc_unique [OF le that] .
  have x: "\<not> is_reader (?ts ! j) \<and> reader_count (st s) = 0 \<and> writer_entered (st s)"
    if "i < length ?ts" "j < length ?ts" "holds_write (?ts ! i)" for i j
  proof -
    from that have "0 < count_pc holds_write ?ts" by (auto intro: count_pc_pos)
    with h have z: "reader_count (st s) = 0" by simp
    with r have "count_pc is_reader ?ts = 0" by simp
    with that(2) have "\<not> is_reader (?ts ! j)" by (simp add: count_pc_zero_iff)
    moreover from that w have "writer_entered (st s)" by (auto simp: active_writer_def)
    ultimately show ?thesis using z by simp
  qed
  have d: "draining (?ts ! i)" if "i < length ?ts" "active_writer (?ts ! i)" "0 < reader_count (st s)" for i
    using x [of i i] that by (auto simp: active_writer_def)
  from r w u x d show ?thesis by blast
qed

theorem mutual_exclusion_witness:
  "run (init 2) [Call 1 M_RLock, Lock 1, Run 1 None, Call 0 M_WLock, Lock 0, Run 0 None] =
     Some \<lparr>st = \<lparr>reader_count = 1, writer_entered = True\<rparr>, mutex = None,
           threads = [Waiting writer_cv L_WLock2, Reading], destroyed = False\<rparr> \<and>
   count_pc is_reader [Waiting writer_cv L_WLock2, Reading] = 1 \<and>
   draining (Waiting writer_cv L_WLock2) \<and> \<not> holds_write (Waiting writer_cv L_WLock2)"
proof -
  have r: "run (init 2) [Call 1 M_RLock, Lock 1, Run 1 None, Call 0 M_WLock, Lock 0, Run 0 None] =
     Some \<lparr>st = \<lparr>reader_count = 1, writer_entered = True\<rparr>, mutex = None,
           threads = [Waiting writer_cv L_WLock2, Reading], destroyed = False\<rparr>"
    by (simp add: init_2 initial_def WLock_def WLock_drain_def RLock_def MAX_READERS_def)
  from mutual_exclusion [OF r] r show ?thesis
    by (simp add: holds_write_def draining_def count_pc_def is_reader_def)
qed

section \<open>Writer preference\<close>

text \<open>
  C2.  Writer preference.  Let \<open>w\<close> be an active writer in a reachable state \<open>s\<close>: it
  has set \<^verbatim>\<open>writer_entered_\<close> and not yet cleared it.  Then the flag is set, and for every
  run from \<open>s\<close> to a state \<open>s'\<close>: either the run contains the step in which \<open>w\<close> runs
  the body of \<^verbatim>\<open>WUnlock\<close>, at a moment when \<^verbatim>\<open>reader_count_\<close> is 0; or the flag is
  still set, \<open>w\<close> is still the active writer, every reader of \<open>s'\<close> was a reader of
  \<open>s\<close> already, and \<^verbatim>\<open>reader_count_\<close> has not grown.  So no thread is admitted to read
  before the writer has released, and the readers the writer waits for are among those
  of the moment it announced itself.
\<close>

theorem writer_preference:
  assumes "run (init n) as = Some s" and "w < length (threads s)"
    and "active_writer (threads s ! w)" and "run s bs = Some s'"
  shows "writer_entered (st s) \<and>
         ((\<exists>bs1 bs2 x u. bs = bs1 @ Run w x # bs2 \<and> run s bs1 = Some u \<and>
              threads u ! w = Running L_WUnlock \<and> reader_count (st u) = 0) \<or>
          (writer_entered (st s') \<and> active_writer (threads s' ! w) \<and>
           (\<forall>r<length (threads s). is_reader (threads s' ! r) \<longrightarrow> is_reader (threads s ! r)) \<and>
           unat (reader_count (st s')) \<le> unat (reader_count (st s))))"
proof -
  from assms(1) have li: "latch_inv s" by (rule latch_inv_reachable)
  from li assms(2,3) have we: "writer_entered (st s)" by (auto simp: latch_inv_flag)
  from announced_run [OF li assms(2-4)]
  have "(\<exists>bs1 bs2 x u. bs = bs1 @ Run w x # bs2 \<and> run s bs1 = Some u \<and>
              threads u ! w = Running L_WUnlock \<and> reader_count (st u) = 0) \<or>
          (writer_entered (st s') \<and> active_writer (threads s' ! w) \<and>
           (\<forall>r<length (threads s). is_reader (threads s' ! r) \<longrightarrow> is_reader (threads s ! r)) \<and>
           unat (reader_count (st s')) \<le> unat (reader_count (st s)))"
  proof
    assume "\<exists>bs1 bs2 x u. bs = bs1 @ Run w x # bs2 \<and> run s bs1 = Some u \<and>
            threads u ! w = Running L_WUnlock"
    then obtain bs1 bs2 x u where b: "bs = bs1 @ Run w x # bs2" and r: "run s bs1 = Some u"
      and pc: "threads u ! w = Running L_WUnlock" by blast
    from li r have liu: "latch_inv u" by (rule latch_inv_run)
    from r assms(2) have wu: "w < length (threads u)" by (simp add: length_run)
    from pc have "holds_write (threads u ! w)" by (simp add: holds_write_def)
    from latch_inv_excl [OF liu wu this] have "reader_count (st u) = 0" by simp
    with b r pc show ?thesis by blast
  next
    assume k: "active_writer (threads s' ! w) \<and>
          (\<forall>r<length (threads s). is_reader (threads s' ! r) \<longrightarrow> is_reader (threads s ! r))"
    from li assms(4) have li': "latch_inv s'" by (rule latch_inv_run)
    from assms(4) have len: "length (threads s') = length (threads s)" by (rule length_run)
    from li' k assms(2) len have "writer_entered (st s')" by (auto simp: latch_inv_flag)
    moreover from count_pc_mono [OF len, of is_reader] k li li'
    have "unat (reader_count (st s')) \<le> unat (reader_count (st s))"
      by (simp add: latch_inv_def)
    ultimately show ?thesis using k by blast
  qed
  with we show ?thesis by simp
qed

theorem writer_preference_witness:
  "run (init 3) [Call 1 M_RLock, Lock 1, Run 1 None, Call 0 M_WLock, Lock 0, Run 0 None] =
     Some \<lparr>st = \<lparr>reader_count = 1, writer_entered = True\<rparr>, mutex = None,
           threads = [Waiting writer_cv L_WLock2, Reading, Idle], destroyed = False\<rparr> \<and>
   run \<lparr>st = \<lparr>reader_count = 1, writer_entered = True\<rparr>, mutex = None,
        threads = [Waiting writer_cv L_WLock2, Reading, Idle], destroyed = False\<rparr>
       [Call 2 M_RLock, Lock 2, Run 2 None] =
     Some \<lparr>st = \<lparr>reader_count = 1, writer_entered = True\<rparr>, mutex = None,
           threads = [Waiting writer_cv L_WLock2, Reading, Waiting reader_cv L_RLock],
           destroyed = False\<rparr> \<and>
   active_writer (Waiting writer_cv L_WLock2) \<and> \<not> is_reader (Waiting reader_cv L_RLock)"
proof -
  let ?s = "\<lparr>st = \<lparr>reader_count = 1, writer_entered = True\<rparr>, mutex = None,
           threads = [Waiting writer_cv L_WLock2, Reading, Idle], destroyed = False\<rparr>"
  let ?s' = "\<lparr>st = \<lparr>reader_count = 1, writer_entered = True\<rparr>, mutex = None,
           threads = [Waiting writer_cv L_WLock2, Reading, Waiting reader_cv L_RLock],
           destroyed = False\<rparr>"
  have r: "run (init 3) [Call 1 M_RLock, Lock 1, Run 1 None, Call 0 M_WLock, Lock 0, Run 0 None] =
     Some ?s"
    by (simp add: init_3 initial_def RLock_def WLock_def WLock_drain_def MAX_READERS_def)
  have r': "run ?s [Call 2 M_RLock, Lock 2, Run 2 None] = Some ?s'"
    by (simp add: list_update_2 RLock_def)
  have w: "(0::nat) < length (threads ?s)" by simp
  have a: "active_writer (threads ?s ! 0)" by (simp add: active_writer_def draining_def)
  from writer_preference [OF r w a r'] r r' a show ?thesis
    by (simp add: is_reader_def)
qed

section \<open>Acquiring the write latch\<close>

text \<open>
  C3.  A step of a thread inside \<^verbatim>\<open>WLock\<close>, in a reachable state.  At the first loop
  with \<^verbatim>\<open>writer_entered_\<close> set it changes nothing and parks on \<^verbatim>\<open>reader_\<close>, to come
  back to the same test.  With the flag clear it sets the flag, and no other thread was
  an active writer.  The second loop is only reached with the flag set; with a non-zero
  \<^verbatim>\<open>reader_count_\<close> the thread parks on \<^verbatim>\<open>writer_\<close>, to come back to that test.
  \<^verbatim>\<open>WLock\<close> returns exactly when it is past the first loop and \<^verbatim>\<open>reader_count_\<close> is
  0, and then no other thread is a reader or an active writer.  \<^verbatim>\<open>reader_count_\<close> is
  never changed.
\<close>

theorem WLock_two_phases:
  assumes "run (init n) as = Some s" and "step s (Run t w) = Some s'"
    and "threads s ! t = Running p" and "p = L_WLock1 \<or> p = L_WLock2"
  shows "(p = L_WLock1 \<and> writer_entered (st s) \<longrightarrow>
            st s' = st s \<and> threads s' ! t = Waiting reader_cv L_WLock1) \<and>
         (p = L_WLock1 \<and> \<not> writer_entered (st s) \<longrightarrow>
            writer_entered (st s') \<and> (\<forall>j<length (threads s). \<not> active_writer (threads s ! j))) \<and>
         (p = L_WLock2 \<longrightarrow> writer_entered (st s) \<and> st s' = st s) \<and>
         (\<not> (p = L_WLock1 \<and> writer_entered (st s)) \<and> 0 < reader_count (st s) \<longrightarrow>
            writer_entered (st s') \<and> threads s' ! t = Waiting writer_cv L_WLock2) \<and>
         (threads s' ! t = Writing) =
            (\<not> (p = L_WLock1 \<and> writer_entered (st s)) \<and> reader_count (st s) = 0) \<and>
         (threads s' ! t = Writing \<longrightarrow>
            reader_count (st s') = 0 \<and> writer_entered (st s') \<and>
            (\<forall>j<length (threads s'). j \<noteq> t \<longrightarrow>
               \<not> is_reader (threads s' ! j) \<and> \<not> active_writer (threads s' ! j))) \<and>
         reader_count (st s') = reader_count (st s)"
proof -
  from assms(1) have li: "latch_inv s" by (rule latch_inv_reachable)
  from li assms(2) have li': "latch_inv s'" by (rule latch_inv_step)
  from assms(2) have t: "t < length (threads s)" by (rule Run_pc)
  have len: "length (threads s') = length (threads s)" using assms(2) by (rule length_step)
  note W = Run_Wait [OF assms(2,3)] Run_Wait_self [OF assms(2,3)]
  note R = Run_Return [OF assms(2,3)] Run_Return_self [OF assms(2,3)]
  have c1: "st s' = st s \<and> threads s' ! t = Waiting reader_cv L_WLock1"
    if "p = L_WLock1" "writer_entered (st s)"
    using that W [of "st s" reader_cv L_WLock1] by (simp add: WLock_def)
  have c2: "\<forall>j<length (threads s). \<not> active_writer (threads s ! j)" if "\<not> writer_entered (st s)"
    using that li by (simp add: latch_inv_flag)
  have c3: "writer_entered (st s)" if "p = L_WLock2"
    using that li t assms(3) by (auto simp: latch_inv_flag active_writer_def draining_def)
  have c4: "st s' = st s\<lparr>writer_entered := True\<rparr> \<and> threads s' ! t = Waiting writer_cv L_WLock2"
    if "\<not> (p = L_WLock1 \<and> writer_entered (st s))" "0 < reader_count (st s)"
  proof (cases "p = L_WLock1")
    case True
    with that W [of "st s\<lparr>writer_entered := True\<rparr>" writer_cv L_WLock2] show ?thesis
      by (simp add: WLock_def WLock_drain_def)
  next
    case False
    with assms(4) have p: "p = L_WLock2" by simp
    from c3 [OF p] have "st s\<lparr>writer_entered := True\<rparr> = st s" by simp
    with p that W [of "st s" writer_cv L_WLock2] show ?thesis
      by (simp add: WLock_drain_def)
  qed
  have c5: "st s' = st s\<lparr>writer_entered := True\<rparr> \<and> threads s' ! t = Writing"
    if "\<not> (p = L_WLock1 \<and> writer_entered (st s))" "reader_count (st s) = 0"
  proof (cases "p = L_WLock1")
    case True
    with that R [of "st s\<lparr>writer_entered := True\<rparr>" None] show ?thesis
      by (simp add: WLock_def WLock_drain_def)
  next
    case False
    with assms(4) have p: "p = L_WLock2" by simp
    from c3 [OF p] have "st s\<lparr>writer_entered := True\<rparr> = st s" by simp
    with p that R [of "st s" None] show ?thesis
      by (simp add: WLock_drain_def)
  qed
  have c6: "reader_count (st s') = 0 \<and> writer_entered (st s') \<and>
            (\<forall>j<length (threads s'). j \<noteq> t \<longrightarrow>
               \<not> is_reader (threads s' ! j) \<and> \<not> active_writer (threads s' ! j))"
    if wr: "threads s' ! t = Writing"
  proof -
    from wr have h: "holds_write (threads s' ! t)" by (simp add: holds_write_def)
    then have a: "active_writer (threads s' ! t)" by (simp add: active_writer_def)
    from t len have t': "t < length (threads s')" by simp
    from latch_inv_excl [OF li' t' h] latch_inv_unique [OF li' _ t' _ a] show ?thesis by blast
  qed
  consider (a) "p = L_WLock1 \<and> writer_entered (st s)"
    | (b) "\<not> (p = L_WLock1 \<and> writer_entered (st s))" "0 < reader_count (st s)"
    | (c) "\<not> (p = L_WLock1 \<and> writer_entered (st s))" "reader_count (st s) = 0"
    by (auto simp: word_greater_zero_iff)
  then have main: "((threads s' ! t = Writing) =
            (\<not> (p = L_WLock1 \<and> writer_entered (st s)) \<and> reader_count (st s) = 0)) \<and>
      reader_count (st s') = reader_count (st s) \<and>
      (p = L_WLock2 \<longrightarrow> writer_entered (st s) \<and> st s' = st s) \<and>
      (p = L_WLock1 \<and> \<not> writer_entered (st s) \<longrightarrow>
            writer_entered (st s') \<and> (\<forall>j<length (threads s). \<not> active_writer (threads s ! j)))"
  proof cases
    case a
    with c1 show ?thesis by simp
  next
    case b
    from c4 [OF b] b c2 c3 show ?thesis by auto
  next
    case c
    from c5 [OF c] c c2 c3 show ?thesis by auto
  qed
  have c4': "\<not> (p = L_WLock1 \<and> writer_entered (st s)) \<and> 0 < reader_count (st s) \<longrightarrow>
            writer_entered (st s') \<and> threads s' ! t = Waiting writer_cv L_WLock2"
    using c4 by auto
  from c1 c4' c6 main show ?thesis by blast
qed

theorem WLock_two_phases_witness:
  "run (init 2) [Call 1 M_RLock, Lock 1, Run 1 None, Call 0 M_WLock, Lock 0] =
     Some \<lparr>st = \<lparr>reader_count = 1, writer_entered = False\<rparr>, mutex = Some 0,
           threads = [Running L_WLock1, Reading], destroyed = False\<rparr> \<and>
   step \<lparr>st = \<lparr>reader_count = 1, writer_entered = False\<rparr>, mutex = Some 0,
           threads = [Running L_WLock1, Reading], destroyed = False\<rparr> (Run 0 None) =
     Some \<lparr>st = \<lparr>reader_count = 1, writer_entered = True\<rparr>, mutex = None,
           threads = [Waiting writer_cv L_WLock2, Reading], destroyed = False\<rparr> \<and>
   [Waiting writer_cv L_WLock2, Reading] ! 0 \<noteq> Writing"
proof -
  let ?s = "\<lparr>st = \<lparr>reader_count = 1, writer_entered = False\<rparr>, mutex = Some 0,
           threads = [Running L_WLock1, Reading], destroyed = False\<rparr>"
  let ?s' = "\<lparr>st = \<lparr>reader_count = 1, writer_entered = True\<rparr>, mutex = None,
           threads = [Waiting writer_cv L_WLock2, Reading], destroyed = False\<rparr>"
  have r: "run (init 2) [Call 1 M_RLock, Lock 1, Run 1 None, Call 0 M_WLock, Lock 0] = Some ?s"
    by (simp add: init_2 initial_def RLock_def MAX_READERS_def)
  have stp: "step ?s (Run 0 None) = Some ?s'"
    by (simp add: WLock_def WLock_drain_def)
  have pc: "threads ?s ! 0 = Running L_WLock1" by simp
  from WLock_two_phases [OF r stp pc] r stp show ?thesis by simp
qed

section \<open>Releasing the read latch\<close>

text \<open>
  C5.  The step that runs the body of \<^verbatim>\<open>RUnlock\<close>: \<^verbatim>\<open>reader_count_\<close> goes down by
  one (as a number too, unless it was 0), \<^verbatim>\<open>writer_entered_\<close> stays, and the call made
  on a condition variable is the one of the specified policy: \<^verbatim>\<open>notify_one\<close> on
  \<^verbatim>\<open>writer_\<close>, \<^verbatim>\<open>notify_one\<close> on \<^verbatim>\<open>reader_\<close>, or none.  Exactly one thread parked on
  that condition variable leaves its \<^verbatim>\<open>wait\<close> if there is one; otherwise no thread
  does.
\<close>

theorem RUnlock_wake_policy:
  assumes "step s (Run t w) = Some s'" and "threads s ! t = Running L_RUnlock"
  shows "reader_count (st s') = reader_count (st s) - 1 \<and>
         (reader_count (st s) \<noteq> 0 \<longrightarrow> unat (reader_count (st s')) + 1 = unat (reader_count (st s))) \<and>
         writer_entered (st s') = writer_entered (st s) \<and>
         snd (RUnlock (st s)) = Return (map_option notify_one (spec_ReleaseRead_wakes (st s))) \<and>
         (case spec_ReleaseRead_wakes (st s) of
            None \<Rightarrow> \<forall>i. \<not> unparked (threads s) (threads s') i
          | Some cv \<Rightarrow>
              if list_ex (parked_on cv) (threads s)
              then \<exists>j. parked_on cv (threads s ! j) \<and> threads s' ! j = wake cv (threads s ! j) \<and>
                       (\<forall>i. unparked (threads s) (threads s') i = (i = j))
              else \<forall>i. \<not> unparked (threads s) (threads s') i)"
proof -
  let ?ts = "(threads s)[t := Idle]"
  have b: "body L_RUnlock (st s) = (st s\<lparr>reader_count := reader_count (st s) - 1\<rparr>,
                Return (map_option notify_one (spec_ReleaseRead_wakes (st s))))"
    by (simp add: RUnlock_result)
  from Run_Return [OF assms b]
  have t: "t < length (threads s)"
    and d: "deliver (map_option notify_one (spec_ReleaseRead_wakes (st s))) w ?ts = Some (threads s')"
    and l: "st s' = st s\<lparr>reader_count := reader_count (st s) - 1\<rparr>"
    by simp_all
  have nw: "\<not> is_waiting (threads s ! t)" "\<not> is_waiting Idle" using assms(2) by simp_all
  have pk: "parked_on cv (?ts ! i) = parked_on cv (threads s ! i)" for cv i
    using assms(2) t by (cases "i = t") (auto simp: nth_list_update)
  have ex: "list_ex (parked_on cv) ?ts = list_ex (parked_on cv) (threads s)" for cv
    by (simp add: list_ex_length pk)
  have wake: "case spec_ReleaseRead_wakes (st s) of
            None \<Rightarrow> \<forall>i. \<not> unparked (threads s) (threads s') i
          | Some cv \<Rightarrow>
              if list_ex (parked_on cv) (threads s)
              then \<exists>j. parked_on cv (threads s ! j) \<and> threads s' ! j = wake cv (threads s ! j) \<and>
                       (\<forall>i. unparked (threads s) (threads s') i = (i = j))
              else \<forall>i. \<not> unparked (threads s) (threads s') i"
  proof (cases "spec_ReleaseRead_wakes (st s)")
    case None
    with d have "deliver None w ?ts = Some (threads s')" by simp
    then have "threads s' = ?ts" by (simp split: if_splits)
    with None nw show ?thesis by (simp add: unparked_none)
  next
    case (Some cv)
    with d have d1: "deliver (Some (notify_one cv)) w ?ts = Some (threads s')" by simp
    show ?thesis
    proof (cases "list_ex (parked_on cv) (threads s)")
      case True
      with deliver_one [OF d1] ex obtain j where j: "j < length ?ts" "parked_on cv (?ts ! j)"
        and ts': "threads s' = ?ts[j := wake cv (?ts ! j)]" by auto
      from j have jt: "j \<noteq> t" using t by (auto simp: nth_list_update split: if_splits)
      have "unparked (threads s) (threads s') i = (i = j)" for i
        unfolding ts' using unparked_one [OF nw _ j(2)] j(1) by simp
      moreover have "threads s' ! j = wake cv (threads s ! j)"
        using ts' j jt by simp
      ultimately have "\<exists>j. parked_on cv (threads s ! j) \<and> threads s' ! j = wake cv (threads s ! j) \<and>
                       (\<forall>i. unparked (threads s) (threads s') i = (i = j))"
        using j(2) pk [of cv j] by blast
      with Some True show ?thesis by simp
    next
      case False
      with deliver_one [OF d1] ex have "threads s' = ?ts" by simp
      with Some False nw show ?thesis by (simp add: unparked_none)
    qed
  qed
  have "reader_count (st s) \<noteq> 0 \<longrightarrow> unat (reader_count (st s')) + 1 = unat (reader_count (st s))"
    using l dec_unat [of "reader_count (st s)"] by simp
  with l wake show ?thesis
    by (simp add: RUnlock_result)
qed

theorem RUnlock_wake_policy_witness:
  "step \<lparr>st = \<lparr>reader_count = 1, writer_entered = True\<rparr>, mutex = Some 1,
          threads = [Waiting writer_cv L_WLock2, Running L_RUnlock], destroyed = False\<rparr>
        (Run 1 (Some 0)) =
     Some \<lparr>st = \<lparr>reader_count = 0, writer_entered = True\<rparr>, mutex = None,
           threads = [Acquiring L_WLock2, Idle], destroyed = False\<rparr> \<and>
   RUnlock \<lparr>reader_count = 1, writer_entered = True\<rparr> =
     (\<lparr>reader_count = 0, writer_entered = True\<rparr>, Return (Some (notify_one writer_cv))) \<and>
   (\<exists>j. \<forall>i. unparked [Waiting writer_cv L_WLock2, Running L_RUnlock] [Acquiring L_WLock2, Idle] i = (i = j))"
proof -
  let ?s = "\<lparr>st = \<lparr>reader_count = 1, writer_entered = True\<rparr>, mutex = Some 1,
          threads = [Waiting writer_cv L_WLock2, Running L_RUnlock], destroyed = False\<rparr>"
  let ?s' = "\<lparr>st = \<lparr>reader_count = 0, writer_entered = True\<rparr>, mutex = None,
           threads = [Acquiring L_WLock2, Idle], destroyed = False\<rparr>"
  have r: "RUnlock \<lparr>reader_count = 1, writer_entered = True\<rparr> =
     (\<lparr>reader_count = 0, writer_entered = True\<rparr>, Return (Some (notify_one writer_cv)))"
    by (simp add: RUnlock_def Let_def)
  have stp: "step ?s (Run 1 (Some 0)) = Some ?s'"
    by (simp add: r)
  have pc: "threads ?s ! 1 = Running L_RUnlock" by simp
  from RUnlock_wake_policy [OF stp pc] stp r show ?thesis
    by (simp add: spec_ReleaseRead_wakes_def) blast
qed

section \<open>Releasing the write latch\<close>

text \<open>
  C6.  The step that runs the body of \<^verbatim>\<open>WUnlock\<close>, in a reachable state:
  \<^verbatim>\<open>writer_entered_\<close> is cleared, \<^verbatim>\<open>reader_count_\<close> stays, the call is
  \<^verbatim>\<open>reader_.notify_all()\<close>.  Every parked thread is then a writer in the first loop of
  \<^verbatim>\<open>WLock\<close> or a reader in the loop of \<^verbatim>\<open>RLock\<close>, parked on \<^verbatim>\<open>reader_\<close>; each of
  them leaves its \<^verbatim>\<open>wait\<close> and stands before the mutex at the head of its loop, and
  no thread stays parked.
\<close>

theorem WUnlock_wakes_all:
  assumes "run (init n) as = Some s" and "step s (Run t w) = Some s'"
    and "threads s ! t = Running L_WUnlock"
  shows "\<not> writer_entered (st s') \<and> reader_count (st s') = reader_count (st s) \<and>
         threads s' ! t = Idle \<and>
         snd (WUnlock (st s)) = Return (Some (notify_all reader_cv)) \<and>
         (\<forall>j<length (threads s).
            (threads s ! j = Waiting reader_cv L_WLock1 \<longrightarrow> threads s' ! j = Acquiring L_WLock1) \<and>
            (threads s ! j = Waiting reader_cv L_RLock \<longrightarrow> threads s' ! j = Acquiring L_RLock) \<and>
            (is_waiting (threads s ! j) \<longrightarrow>
               threads s ! j = Waiting reader_cv L_WLock1 \<or> threads s ! j = Waiting reader_cv L_RLock) \<and>
            \<not> is_waiting (threads s' ! j) \<and>
            unparked (threads s) (threads s') j = is_waiting (threads s ! j))"
proof -
  have b: "body L_WUnlock (st s) = (st s\<lparr>writer_entered := False\<rparr>, Return (Some (notify_all reader_cv)))"
    by (simp add: WUnlock_def)
  from Run_Return [OF assms(2,3) b]
  have t: "t < length (threads s)"
    and d: "deliver (Some (notify_all reader_cv)) w ((threads s)[t := Idle]) = Some (threads s')"
    and l: "st s' = st s\<lparr>writer_entered := False\<rparr>"
    by simp_all
  from d have ts': "threads s' = map (wake reader_cv) ((threads s)[t := Idle])"
    by (simp split: if_splits)
  have self: "threads s' ! t = Idle" using ts' t by simp
  have other: "threads s' ! j = wake reader_cv (threads s ! j)" if "j < length (threads s)" "j \<noteq> t" for j
    using ts' that by simp
  from assms(1) have li: "latch_inv s" and wi: "wait_inv s"
    by (rule latch_inv_reachable, rule wait_inv_reachable)
  have aw: "active_writer (threads s ! t)"
    using assms(3) by (simp add: active_writer_def holds_write_def)
  have le: "count_pc active_writer (threads s) \<le> 1" using li by (simp add: latch_inv_def)
  have nd: "\<not> draining (threads s ! j)" if "j < length (threads s)" "j \<noteq> t" for j
    using count_pc_unique [OF le that(1) t _ aw] that(2) by (auto simp: active_writer_def)
  have wt: "threads s ! j = Waiting reader_cv L_WLock1 \<or> threads s ! j = Waiting reader_cv L_RLock"
    if "j < length (threads s)" "is_waiting (threads s ! j)" for j
  proof -
    from that assms(3) have jt: "j \<noteq> t" by auto
    from wi that(1) have "wait_ok (threads s ! j)" by (simp add: wait_inv_def)
    with nd [OF that(1) jt] that(2) show ?thesis
      by (cases "threads s ! j") (auto simp: draining_def)
  qed
  have all: "(threads s ! j = Waiting reader_cv L_WLock1 \<longrightarrow> threads s' ! j = Acquiring L_WLock1) \<and>
            (threads s ! j = Waiting reader_cv L_RLock \<longrightarrow> threads s' ! j = Acquiring L_RLock) \<and>
            (is_waiting (threads s ! j) \<longrightarrow>
               threads s ! j = Waiting reader_cv L_WLock1 \<or> threads s ! j = Waiting reader_cv L_RLock) \<and>
            \<not> is_waiting (threads s' ! j) \<and>
            unparked (threads s) (threads s') j = is_waiting (threads s ! j)"
    if j: "j < length (threads s)" for j
  proof (cases "j = t")
    case True
    with self assms(3) j show ?thesis by (simp add: unparked_def)
  next
    case False
    from other [OF j False] wt [OF j] j show ?thesis
      by (cases "threads s ! j") (auto simp: unparked_def)
  qed
  from l self all show ?thesis by (simp add: WUnlock_def)
qed

theorem WUnlock_wakes_all_witness:
  "run (init 3) [Call 0 M_WLock, Lock 0, Run 0 None, Call 1 M_RLock, Lock 1, Run 1 None,
                 Call 2 M_WLock, Lock 2, Run 2 None, Call 0 M_WUnlock, Lock 0] =
     Some \<lparr>st = \<lparr>reader_count = 0, writer_entered = True\<rparr>, mutex = Some 0,
           threads = [Running L_WUnlock, Waiting reader_cv L_RLock, Waiting reader_cv L_WLock1],
           destroyed = False\<rparr> \<and>
   step \<lparr>st = \<lparr>reader_count = 0, writer_entered = True\<rparr>, mutex = Some 0,
           threads = [Running L_WUnlock, Waiting reader_cv L_RLock, Waiting reader_cv L_WLock1],
           destroyed = False\<rparr> (Run 0 None) =
     Some \<lparr>st = \<lparr>reader_count = 0, writer_entered = False\<rparr>, mutex = None,
           threads = [Idle, Acquiring L_RLock, Acquiring L_WLock1], destroyed = False\<rparr> \<and>
   unparked [Running L_WUnlock, Waiting reader_cv L_RLock, Waiting reader_cv L_WLock1]
            [Idle, Acquiring L_RLock, Acquiring L_WLock1] 1 \<and>
   unparked [Running L_WUnlock, Waiting reader_cv L_RLock, Waiting reader_cv L_WLock1]
            [Idle, Acquiring L_RLock, Acquiring L_WLock1] 2"
proof -
  let ?s = "\<lparr>st = \<lparr>reader_count = 0, writer_entered = True\<rparr>, mutex = Some 0,
           threads = [Running L_WUnlock, Waiting reader_cv L_RLock, Waiting reader_cv L_WLock1],
           destroyed = False\<rparr>"
  let ?s' = "\<lparr>st = \<lparr>reader_count = 0, writer_entered = False\<rparr>, mutex = None,
           threads = [Idle, Acquiring L_RLock, Acquiring L_WLock1], destroyed = False\<rparr>"
  have r: "run (init 3) [Call 0 M_WLock, Lock 0, Run 0 None, Call 1 M_RLock, Lock 1, Run 1 None,
                 Call 2 M_WLock, Lock 2, Run 2 None, Call 0 M_WUnlock, Lock 0] = Some ?s"
    by (simp add: init_3 list_update_2 initial_def RLock_def WLock_def WLock_drain_def)
  have stp: "step ?s (Run 0 None) = Some ?s'"
    by (simp add: WUnlock_def)
  have pc: "threads ?s ! 0 = Running L_WUnlock" by simp
  from WUnlock_wakes_all [OF r stp pc] r stp show ?thesis by simp
qed

section \<open>An unmatched release\<close>

text \<open>
  C9.  \<^verbatim>\<open>RUnlock\<close> with \<^verbatim>\<open>reader_count_\<close> at 0: the counter wraps to
  \<^verbatim>\<open>MAX_READERS\<close>, that is \<open>2 ^ 32 - 1\<close>; no notification is made; and from then on
  \<^verbatim>\<open>RLock\<close> parks whatever the value of \<^verbatim>\<open>writer_entered_\<close>.
\<close>

theorem RUnlock_unmatched:
  "reader_count s = 0 \<Longrightarrow>
     reader_count (fst (RUnlock s)) = MAX_READERS \<and>
     unat (reader_count (fst (RUnlock s))) = 2 ^ 32 - 1 \<and>
     writer_entered (fst (RUnlock s)) = writer_entered s \<and>
     snd (RUnlock s) = Return None \<and>
     (\<forall>b. RLock (fst (RUnlock s)\<lparr>writer_entered := b\<rparr>) =
           (fst (RUnlock s)\<lparr>writer_entered := b\<rparr>, Wait reader_cv L_RLock))"
  by (simp add: RUnlock_def RLock_def Let_def MAX_READERS_minus1 [symmetric] unat_MAX_READERS
      MAX_READERS_neq)

theorem RUnlock_unmatched_witness:
  "reader_count initial = 0 \<and> RUnlock initial = (\<lparr>reader_count = 4294967295, writer_entered = False\<rparr>, Return None) \<and>
   RLock \<lparr>reader_count = 4294967295, writer_entered = False\<rparr> =
     (\<lparr>reader_count = 4294967295, writer_entered = False\<rparr>, Wait reader_cv L_RLock)"
  using RUnlock_unmatched [of initial]
  by (simp add: initial_def RUnlock_def RLock_def Let_def MAX_READERS_def)

section \<open>Frame\<close>

text \<open>
  C10.  Frame: \<^verbatim>\<open>RLock\<close> and \<^verbatim>\<open>RUnlock\<close> leave \<^verbatim>\<open>writer_entered_\<close> as it is;
  \<^verbatim>\<open>WLock\<close> and \<^verbatim>\<open>WUnlock\<close> leave \<^verbatim>\<open>reader_count_\<close> as it is, and the drain
  loop of \<^verbatim>\<open>WLock\<close> changes nothing at all.  The same for the steps of the system: a
  step that runs a piece of a read method keeps \<^verbatim>\<open>writer_entered_\<close>, one that runs a
  piece of a write method keeps \<^verbatim>\<open>reader_count_\<close>, and every other step keeps both.
\<close>

theorem frame:
  "writer_entered (fst (RLock l)) = writer_entered l \<and>
   writer_entered (fst (RUnlock l)) = writer_entered l \<and>
   reader_count (fst (WLock l)) = reader_count l \<and>
   fst (WLock_drain l) = l \<and>
   reader_count (fst (WUnlock l)) = reader_count l \<and>
   (step s a = Some s' \<longrightarrow>
      (case a of
         Run t w \<Rightarrow>
           (threads s ! t = Running L_RLock \<or> threads s ! t = Running L_RUnlock \<longrightarrow>
              writer_entered (st s') = writer_entered (st s)) \<and>
           (threads s ! t = Running L_WLock1 \<or> threads s ! t = Running L_WLock2 \<or>
            threads s ! t = Running L_WUnlock \<longrightarrow>
              reader_count (st s') = reader_count (st s))
       | _ \<Rightarrow> st s' = st s))"
proof -
  have f: "writer_entered (fst (RLock l)) = writer_entered l"
    "writer_entered (fst (RUnlock l)) = writer_entered l"
    "reader_count (fst (WLock l)) = reader_count l"
    "fst (WLock_drain l) = l"
    "reader_count (fst (WUnlock l)) = reader_count l" for l
    by (simp_all add: RLock_def RUnlock_def WLock_def WLock_drain_def WUnlock_def Let_def)
  have g: "case a of
         Run t w \<Rightarrow>
           (threads s ! t = Running L_RLock \<or> threads s ! t = Running L_RUnlock \<longrightarrow>
              writer_entered (st s') = writer_entered (st s)) \<and>
           (threads s ! t = Running L_WLock1 \<or> threads s ! t = Running L_WLock2 \<or>
            threads s ! t = Running L_WUnlock \<longrightarrow>
              reader_count (st s') = reader_count (st s))
       | _ \<Rightarrow> st s' = st s" if stp: "step s a = Some s'"
  proof (cases a)
    case (Run t w)
    from stp [unfolded Run] obtain p where pc: "threads s ! t = Running p"
      and e: "st s' = fst (body p (st s))"
      by (rule Run_effect)
    from pc e f [of "st s"] Run show ?thesis by (cases p) auto
  qed (use stp in \<open>auto split: if_splits option.splits pc.splits\<close>)
  from f [of l] g show ?thesis by blast
qed

theorem frame_witness:
  "step \<lparr>st = initial, mutex = Some 0, threads = [Running L_RLock], destroyed = False\<rparr> (Run 0 None) =
     Some \<lparr>st = \<lparr>reader_count = 1, writer_entered = False\<rparr>, mutex = None, threads = [Reading],
           destroyed = False\<rparr> \<and>
   writer_entered (fst (RLock initial)) = writer_entered initial \<and>
   writer_entered \<lparr>reader_count = 1, writer_entered = False\<rparr> = writer_entered initial"
proof -
  let ?s = "\<lparr>st = initial, mutex = Some 0, threads = [Running L_RLock], destroyed = False\<rparr>"
  let ?s' = "\<lparr>st = \<lparr>reader_count = 1, writer_entered = False\<rparr>, mutex = None, threads = [Reading],
           destroyed = False\<rparr>"
  have stp: "step ?s (Run 0 None) = Some ?s'"
    by (simp add: initial_def RLock_def MAX_READERS_def)
  from frame [of initial ?s "Run 0 None" ?s'] stp show ?thesis by simp
qed

section \<open>Acquiring the read latch\<close>

text \<open>
  C4.  The step that runs the loop of \<^verbatim>\<open>RLock\<close>: with \<^verbatim>\<open>writer_entered_\<close> set or
  \<^verbatim>\<open>reader_count_\<close> equal to \<^verbatim>\<open>MAX_READERS\<close> it changes nothing and parks on
  \<^verbatim>\<open>reader_\<close>, to come back to the same test; otherwise \<^verbatim>\<open>reader_count_\<close> grows by
  exactly one, \<^verbatim>\<open>writer_entered_\<close> stays and \<^verbatim>\<open>RLock\<close> returns.  And \<open>n\<close> threads, for
  any \<open>n\<close> below \<open>2 ^ 32\<close>, are admitted one after the other and then hold the read
  latch together, with \<^verbatim>\<open>reader_count_\<close> equal to \<open>n\<close>.
\<close>

theorem RLock_admission:
  "(step s (Run t w) = Some s' \<and> threads s ! t = Running L_RLock \<longrightarrow>
      (if writer_entered (st s) \<or> reader_count (st s) = MAX_READERS
       then st s' = st s \<and> threads s' ! t = Waiting reader_cv L_RLock
       else unat (reader_count (st s')) = unat (reader_count (st s)) + 1 \<and>
            writer_entered (st s') = writer_entered (st s) \<and> threads s' ! t = Reading)) \<and>
   (n < 2 ^ 32 \<longrightarrow>
      run (init n) (admit_all n) =
        Some \<lparr>st = \<lparr>reader_count = of_nat n, writer_entered = False\<rparr>, mutex = None,
              threads = replicate n Reading, destroyed = False\<rparr> \<and>
      unat (of_nat n :: uint32_t) = n)"
proof -
  have a: "if writer_entered (st s) \<or> reader_count (st s) = MAX_READERS
       then st s' = st s \<and> threads s' ! t = Waiting reader_cv L_RLock
       else unat (reader_count (st s')) = unat (reader_count (st s)) + 1 \<and>
            writer_entered (st s') = writer_entered (st s) \<and> threads s' ! t = Reading"
    if stp: "step s (Run t w) = Some s'" and pc: "threads s ! t = Running L_RLock"
  proof (cases "writer_entered (st s) \<or> reader_count (st s) = MAX_READERS")
    case True
    then have b: "body L_RLock (st s) = (st s, Wait reader_cv L_RLock)" by (simp add: RLock_def)
    from Run_Wait [OF stp pc b] Run_Wait_self [OF stp pc b] True show ?thesis by simp
  next
    case False
    then have b: "body L_RLock (st s) = (st s\<lparr>reader_count := reader_count (st s) + 1\<rparr>, Return None)"
      by (simp add: RLock_def)
    from Run_Return [OF stp pc b] Run_Return_self [OF stp pc b] False show ?thesis
      by (simp add: inc_unat)
  qed
  have b: "run (init n) (admit_all n) =
        Some \<lparr>st = \<lparr>reader_count = of_nat n, writer_entered = False\<rparr>, mutex = None,
              threads = replicate n Reading, destroyed = False\<rparr> \<and>
      unat (of_nat n :: uint32_t) = n" if "n < 2 ^ 32"
    using run_admit_all [of n n] that by (simp add: unat_of_nat)
  from a b show ?thesis by blast
qed

theorem RLock_admission_witness:
  "step \<lparr>st = \<lparr>reader_count = 1, writer_entered = False\<rparr>, mutex = Some 0,
          threads = [Running L_RLock, Reading], destroyed = False\<rparr> (Run 0 None) =
     Some \<lparr>st = \<lparr>reader_count = 2, writer_entered = False\<rparr>, mutex = None,
           threads = [Reading, Reading], destroyed = False\<rparr> \<and>
   run (init 2) (admit_all 2) =
     Some \<lparr>st = \<lparr>reader_count = 2, writer_entered = False\<rparr>, mutex = None,
           threads = [Reading, Reading], destroyed = False\<rparr>"
proof -
  let ?s = "\<lparr>st = \<lparr>reader_count = 1, writer_entered = False\<rparr>, mutex = Some 0,
          threads = [Running L_RLock, Reading], destroyed = False\<rparr>"
  let ?s' = "\<lparr>st = \<lparr>reader_count = 2, writer_entered = False\<rparr>, mutex = None,
           threads = [Reading, Reading], destroyed = False\<rparr>"
  have stp: "step ?s (Run 0 None) = Some ?s'"
    by (simp add: RLock_def MAX_READERS_def)
  have "replicate 2 Reading = [Reading, Reading]" by (simp add: numeral_2_eq_2)
  with RLock_admission [of ?s 0 None ?s' 2] stp show ?thesis by simp
qed

section \<open>Release balance\<close>

text \<open>
  C7.  Release balance.  If \<open>n\<close> calls of \<^verbatim>\<open>RLock\<close> from the initial state all return
  (which they do exactly for \<open>n\<close> below \<open>2 ^ 32\<close>), then \<^verbatim>\<open>reader_count_\<close> is \<open>n\<close>
  and \<open>n\<close> calls of \<^verbatim>\<open>RUnlock\<close> lead back to the initial state.  In the initial state
  \<^verbatim>\<open>WLock\<close> returns without a \<^verbatim>\<open>wait\<close>, and \<^verbatim>\<open>WUnlock\<close> after it leads back to the
  initial state.
\<close>

theorem release_balance:
  "(repeat n RLock initial = Some s \<longrightarrow>
      n < 2 ^ 32 \<and> unat (reader_count s) = n \<and> \<not> writer_entered s \<and>
      repeat n RUnlock s = Some initial) \<and>
   (n < 2 ^ 32 \<longrightarrow> (\<exists>s. repeat n RLock initial = Some s)) \<and>
   WLock initial = (initial\<lparr>writer_entered := True\<rparr>, Return None) \<and>
   WUnlock (initial\<lparr>writer_entered := True\<rparr>) = (initial, Return (Some (notify_all reader_cv)))"
proof -
  have r: "repeat n RLock initial =
     (if n < 2 ^ 32 then Some \<lparr>reader_count = of_nat n, writer_entered = False\<rparr> else None)"
    using repeat_RLock [of 0 n] by (simp add: initial_def)
  have u: "repeat n RUnlock \<lparr>reader_count = of_nat n, writer_entered = False\<rparr> = Some initial"
    using repeat_RUnlock [of n 0 False] by (simp add: initial_def)
  have "n < 2 ^ 32 \<Longrightarrow> unat (of_nat n :: uint32_t) = n" by (simp add: unat_of_nat)
  with r u show ?thesis
    by (auto simp: WLock_def WLock_drain_def WUnlock_def initial_def split: if_splits)
qed

theorem release_balance_witness:
  "repeat 2 RLock initial = Some \<lparr>reader_count = 2, writer_entered = False\<rparr> \<and>
   repeat 2 RUnlock \<lparr>reader_count = 2, writer_entered = False\<rparr> = Some initial \<and>
   snd (WLock initial) = Return None"
proof -
  have r: "repeat 2 RLock initial = Some \<lparr>reader_count = 2, writer_entered = False\<rparr>"
    by (simp add: repeat_numeral initial_def RLock_def MAX_READERS_def)
  from release_balance [of 2 "\<lparr>reader_count = 2, writer_entered = False\<rparr>"] r show ?thesis
    by simp
qed

section \<open>Destruction\<close>

text \<open>
  C8, as amended.  Destruction waits until no other thread holds \<^verbatim>\<open>mutex_\<close>: the
  destructor obtains the mutex before the members are destroyed.  In every reachable state
  the thread that holds \<^verbatim>\<open>mutex_\<close> is the one thread inside a piece of code, and nobody
  obtains the mutex while it is held: the \<^verbatim>\<open>lock_guard\<close> of the destructor waits.  When
  the destructor obtains the mutex no thread is inside a piece of code.  The members are
  destroyed only by a thread that has been through the body of the destructor, holding
  the mutex there.  So a call that holds the mutex at a moment when no destructor has left
  its body yet runs its piece of code to the end before the members are destroyed.
  Nothing is promised to a call that obtains the mutex after the destructor has given it
  back.
\<close>

theorem destructor_takes_mutex:
  assumes "run (init n) as = Some s"
  shows "(\<forall>j<length (threads s). is_running (threads s ! j) = (mutex s = Some j)) \<and>
         (mutex s \<noteq> None \<longrightarrow> step s (Lock d) = None) \<and>
         (step s (Lock d) = Some s' \<and> threads s ! d = Acquiring L_Dtor \<longrightarrow>
            mutex s = None \<and> mutex s' = Some d \<and> threads s' ! d = Running L_Dtor \<and>
            (\<forall>j<length (threads s). \<not> is_running (threads s ! j))) \<and>
         (step s a = Some s' \<and> d < length (threads s) \<and>
          threads s' ! d = Finalizing \<and> threads s ! d \<noteq> Finalizing \<longrightarrow>
            a = Run d None \<and> threads s ! d = Running L_Dtor \<and> mutex s = Some d) \<and>
         (step s a = Some s' \<and> destroyed s' \<longrightarrow>
            (\<exists>f<length (threads s). a = Finalize f \<and> threads s ! f = Finalizing \<and> st s' = st s)) \<and>
         (t < length (threads s) \<and> is_running (threads s ! t) \<and> no_finalizing s \<and>
          \<not> destroyed s \<and> run s bs = Some s'' \<and> destroyed s'' \<longrightarrow>
            (\<exists>bs1 bs2 x u. bs = bs1 @ Run t x # bs2 \<and> run s bs1 = Some u \<and>
               threads u ! t = threads s ! t \<and> mutex u = Some t \<and> \<not> destroyed u))"
proof -
  from assms have mi: "mutex_inv s" by (rule mutex_inv_reachable)
  then have m: "\<forall>j<length (threads s). is_running (threads s ! j) = (mutex s = Some j)"
    by (simp add: mutex_inv_def)
  have l: "mutex s \<noteq> None \<longrightarrow> step s (Lock d) = None" by simp
  have k: "mutex s = None \<and> mutex s' = Some d \<and> threads s' ! d = Running L_Dtor \<and>
            (\<forall>j<length (threads s). \<not> is_running (threads s ! j))"
    if "step s (Lock d) = Some s'" "threads s ! d = Acquiring L_Dtor"
    using that m by (auto split: if_splits)
  have f: "a = Run d None \<and> threads s ! d = Running L_Dtor \<and> mutex s = Some d"
    if "step s a = Some s'" "d < length (threads s)" "threads s' ! d = Finalizing"
      "threads s ! d \<noteq> Finalizing"
    using Finalizing_step [OF that] m that(2) by auto
  have e: "\<exists>f<length (threads s). a = Finalize f \<and> threads s ! f = Finalizing \<and> st s' = st s"
    if "step s a = Some s'" "destroyed s'"
    using destroyed_step [OF that] by blast
  have h: "\<exists>bs1 bs2 x u. bs = bs1 @ Run t x # bs2 \<and> run s bs1 = Some u \<and>
               threads u ! t = threads s ! t \<and> mutex u = Some t \<and> \<not> destroyed u"
    if "t < length (threads s)" "is_running (threads s ! t)" "no_finalizing s"
      "\<not> destroyed s" "run s bs = Some s''" "destroyed s''"
  proof -
    from m that(1,2) have "mutex s = Some t" by simp
    from held_run [OF that(1,2) this that(3-6)] show ?thesis .
  qed
  from m l k f e h show ?thesis by blast
qed

theorem destructor_takes_mutex_witness:
  "run (init 2) [Call 1 M_RLock, Lock 1, Run 1 None, Call 0 M_Dtor, Call 1 M_RUnlock, Lock 1] =
     Some \<lparr>st = \<lparr>reader_count = 1, writer_entered = False\<rparr>, mutex = Some 1,
           threads = [Acquiring L_Dtor, Running L_RUnlock], destroyed = False\<rparr> \<and>
   step \<lparr>st = \<lparr>reader_count = 1, writer_entered = False\<rparr>, mutex = Some 1,
           threads = [Acquiring L_Dtor, Running L_RUnlock], destroyed = False\<rparr> (Lock 0) = None \<and>
   run \<lparr>st = \<lparr>reader_count = 1, writer_entered = False\<rparr>, mutex = Some 1,
           threads = [Acquiring L_Dtor, Running L_RUnlock], destroyed = False\<rparr>
       [Run 1 None, Lock 0, Run 0 None, Finalize 0] =
     Some \<lparr>st = \<lparr>reader_count = 0, writer_entered = False\<rparr>, mutex = None,
           threads = [Idle, Idle], destroyed = True\<rparr> \<and>
   (\<exists>bs1 bs2 x. [Run 1 None, Lock 0, Run 0 None, Finalize 0] = bs1 @ Run 1 x # bs2)"
proof -
  let ?s = "\<lparr>st = \<lparr>reader_count = 1, writer_entered = False\<rparr>, mutex = Some 1,
           threads = [Acquiring L_Dtor, Running L_RUnlock], destroyed = False\<rparr>"
  let ?s' = "\<lparr>st = \<lparr>reader_count = 0, writer_entered = False\<rparr>, mutex = None,
           threads = [Idle, Idle], destroyed = True\<rparr>"
  let ?bs = "[Run 1 None, Lock 0, Run 0 None, Finalize 0]"
  have r: "run (init 2) [Call 1 M_RLock, Lock 1, Run 1 None, Call 0 M_Dtor, Call 1 M_RUnlock, Lock 1] =
     Some ?s"
    by (simp add: init_2 initial_def RLock_def MAX_READERS_def)
  have r': "run ?s ?bs = Some ?s'"
    by (simp add: RUnlock_def Let_def MAX_READERS_def)
  have nf: "no_finalizing ?s" by (simp add: no_finalizing_def less_Suc_eq)
  have "1 < length (threads ?s) \<and> is_running (threads ?s ! 1) \<and> no_finalizing ?s \<and>
          \<not> destroyed ?s \<and> run ?s ?bs = Some ?s' \<and> destroyed ?s'"
    using r' nf by simp
  with destructor_takes_mutex [OF r, of 0 ?s "Lock 0" 1 ?bs ?s']
  have "\<exists>bs1 bs2 x. ?bs = bs1 @ Run 1 x # bs2" by blast
  moreover from destructor_takes_mutex [OF r, of 0 ?s "Lock 0" 1 ?bs ?s']
  have "step ?s (Lock 0) = None" by simp
  ultimately show ?thesis using r r' by simp
qed

text \<open>
  C8 as it was stated, with no condition on the release call, fails: the \<^verbatim>\<open>lock_guard\<close>
  of the destructor gives the mutex back at the closing brace of the body, before the
  members are destroyed.  Thread 1 holds the read latch and has called \<^verbatim>\<open>RUnlock\<close>;
  thread 0 calls the destructor, obtains the free mutex and leaves the body; thread 1
  obtains the mutex and is inside \<^verbatim>\<open>RUnlock\<close>, before the decrement, when thread 0
  destroys the members.
\<close>

theorem destructor_takes_mutex_counterexample:
  "run (init 2) [Call 1 M_RLock, Lock 1, Run 1 None, Call 1 M_RUnlock,
                 Call 0 M_Dtor, Lock 0, Run 0 None, Lock 1, Finalize 0] =
     Some \<lparr>st = \<lparr>reader_count = 1, writer_entered = False\<rparr>, mutex = Some 1,
           threads = [Idle, Running L_RUnlock], destroyed = True\<rparr>"
  by (simp add: init_2 initial_def RLock_def MAX_READERS_def)

end
